theory Spec2Isabelle
  imports Main "HOL-Library.Word"
begin

unbundle bit_operations_syntax

chapter \<open>The embedding of the sources\<close>

section \<open>Machine integers and byte buffers\<close>

text \<open>
  The C++ sources work on \<open>uint8_t\<close>, \<open>uint16_t\<close> and \<open>uint32_t\<close> values and on
  \<open>QByteArray\<close> buffers. A buffer is a list of bytes; a pointer into a buffer
  (\<open>saveData + sectionOffset\<close>) is the buffer together with the offset of the pointer, so
  that \<open>ptr[k]\<close> is element \<open>base + k\<close> of the buffer.
\<close>

type_synonym u8 = "8 word"
type_synonym u16 = "16 word"
type_synonym u32 = "32 word"

text \<open>\<open>p[0] | (p[1] << 8)\<close>, converted to \<open>uint16_t\<close>.\<close>

definition read_u16_le :: "u8 list \<Rightarrow> nat \<Rightarrow> u16" where
  "read_u16_le d p = ucast (d ! p) OR push_bit 8 (ucast (d ! (p + 1)))"

text \<open>\<open>p[0] | (p[1] << 8) | (p[2] << 16) | (p[3] << 24)\<close>, converted to \<open>uint32_t\<close>.\<close>

definition read_u32_le :: "u8 list \<Rightarrow> nat \<Rightarrow> u32" where
  "read_u32_le d p =
     ucast (d ! p) OR push_bit 8 (ucast (d ! (p + 1))) OR
     push_bit 16 (ucast (d ! (p + 2))) OR push_bit 24 (ucast (d ! (p + 3)))"

section \<open>savefile.h: constants and state\<close>

abbreviation (input) EXPECTED_FILE_SIZE :: nat where "EXPECTED_FILE_SIZE \<equiv> 131072"
abbreviation (input) SECTION_SIZE :: nat where "SECTION_SIZE \<equiv> 0x1000"
abbreviation (input) SECTIONS_PER_SAVE :: nat where "SECTIONS_PER_SAVE \<equiv> 14"
abbreviation (input) SECTION_ID_OFFSET :: nat where "SECTION_ID_OFFSET \<equiv> 0xFF4"
abbreviation (input) CHECKSUM_OFFSET :: nat where "CHECKSUM_OFFSET \<equiv> 0xFF6"
abbreviation (input) SAVE_INDEX_OFFSET :: nat where "SAVE_INDEX_OFFSET \<equiv> 0xFFC"
abbreviation (input) CHECKSUM_DATA_LENGTH_DEFAULT :: nat where "CHECKSUM_DATA_LENGTH_DEFAULT \<equiv> 0xF80"
abbreviation (input) CHECKSUM_DATA_LENGTH_SECTION4_FRLG :: nat where
  "CHECKSUM_DATA_LENGTH_SECTION4_FRLG \<equiv> 0xEE8"
abbreviation (input) CHECKSUM_DATA_LENGTH_SECTION4_EMERALD :: nat where
  "CHECKSUM_DATA_LENGTH_SECTION4_EMERALD \<equiv> 0xF08"
abbreviation (input) GAME_CODE_OFFSET :: nat where "GAME_CODE_OFFSET \<equiv> 0xAC"

abbreviation (input) MYSTERY_GIFT_OFFSET_FRLG :: nat where "MYSTERY_GIFT_OFFSET_FRLG \<equiv> 0x067"
abbreviation (input) MYSTERY_GIFT_BIT_FRLG :: u8 where "MYSTERY_GIFT_BIT_FRLG \<equiv> 0x02"
abbreviation (input) MYSTERY_GIFT_OFFSET_EMERALD :: nat where "MYSTERY_GIFT_OFFSET_EMERALD \<equiv> 0x40B"
abbreviation (input) MYSTERY_GIFT_BIT_EMERALD :: u8 where "MYSTERY_GIFT_BIT_EMERALD \<equiv> 0x08"

datatype GameType = Unknown | FireRedLeafGreen | RubySapphire | Emerald

record SaveBlockInfo =
  blockIndex :: nat
  saveIndex :: u32
  valid :: bool
  gameCode :: u32
  hasSecurityKey :: bool

text \<open>
  The member variables of \<open>SaveFile\<close> that the modelled operations read or write
  (\<open>m_filePath\<close> is only used by the file operations).
\<close>

record SaveFile =
  m_bytes :: "u8 list"
  m_detectedGame :: GameType
  m_checksumValid :: bool
  m_activeSaveSlot :: int

definition isLoaded :: "SaveFile \<Rightarrow> bool" where
  "isLoaded sf = (m_bytes sf \<noteq> [])"


section \<open>mysterygift.cpp: Gen3 text\<close>

text \<open>
  A \<open>QChar\<close> is a 16-bit code unit and a \<open>QString\<close> a sequence of them.
  \<open>GEN3_TO_UNICODE\<close> is the table of the source, entry by entry; the entry \<open>0x0000\<close>
  marks a byte without a character.
\<close>

type_synonym QChar = u16
type_synonym QString = "u16 list"

definition GEN3_TO_UNICODE :: "u16 list" where
  "GEN3_TO_UNICODE =
     [0x0020, 0x00C0, 0x00C1, 0x00C2, 0x00C7, 0x00C8, 0x00C9, 0x00CA,
      0x00CB, 0x00CC, 0x0020, 0x00CE, 0x00CF, 0x00D2, 0x00D3, 0x00D4,
      0x0152, 0x00D9, 0x00DA, 0x00DB, 0x00D1, 0x00DF, 0x00E0, 0x00E1,
      0x0000, 0x00E7, 0x00E8, 0x00E9, 0x00EA, 0x00EB, 0x00EC, 0x0000,
      0x00EE, 0x00EF, 0x00F2, 0x00F3, 0x00F4, 0x0153, 0x00F9, 0x00FA,
      0x00FB, 0x00F1, 0x00BA, 0x00AA, 0x1D49, 0x0026, 0x002B, 0x0000,
      0x0000, 0x004C, 0x0076, 0x003D, 0x003B, 0x0000, 0x0000, 0x0000,
      0x0000, 0x0000, 0x0000, 0x0000, 0x0000, 0x0000, 0x0000, 0x0000,
      0x0000, 0x00BF, 0x00A1, 0x0050, 0x004B, 0x004D, 0x004E, 0x0000,
      0x0000, 0x0000, 0x0000, 0x00CD, 0x0025, 0x0028, 0x0029, 0x0000,
      0x0000, 0x00E2, 0x0000, 0x00ED, 0x0000, 0x0000, 0x0000, 0x0000,
      0x0000, 0x0000, 0x2191, 0x2193, 0x2190, 0x2192, 0x0000, 0x0000,
      0x002A, 0x002A, 0x002A, 0x002A, 0x1D49, 0x003C, 0x003E, 0x0000,
      0x0000, 0x0000, 0x0000, 0x0000, 0x0000, 0x0000, 0x0000, 0x0000,
      0x0000, 0x0000, 0x0000, 0x0000, 0x0000, 0x0000, 0x0000, 0x0000,
      0x0000, 0x2191, 0x2193, 0x2190, 0x2192, 0x002A, 0x002A, 0x002A,
      0x002A, 0x002A, 0x002A, 0x002A, 0x1D49, 0x003C, 0x003E, 0x0000,
      0x0000, 0x0000, 0x0000, 0x0000, 0x0000, 0x0000, 0x0000, 0x0000,
      0x0000, 0x0000, 0x0000, 0x0000, 0x0000, 0x0000, 0x0000, 0x0000,
      0x0000, 0x0000, 0x0000, 0x0000, 0x0000, 0x0000, 0x0000, 0x0000,
      0x0000, 0x0030, 0x0031, 0x0032, 0x0033, 0x0034, 0x0035, 0x0036,
      0x0037, 0x0038, 0x0039, 0x0021, 0x003F, 0x002E, 0x002D, 0x30FB,
      0x2025, 0x201C, 0x201D, 0x2018, 0x2019, 0x2642, 0x2640, 0x0020,
      0x002C, 0x00D7, 0x002F, 0x0041, 0x0042, 0x0043, 0x0044, 0x0045,
      0x0046, 0x0047, 0x0048, 0x0049, 0x004A, 0x004B, 0x004C, 0x004D,
      0x004E, 0x004F, 0x0050, 0x0051, 0x0052, 0x0053, 0x0054, 0x0055,
      0x0056, 0x0057, 0x0058, 0x0059, 0x005A, 0x0061, 0x0062, 0x0063,
      0x0064, 0x0065, 0x0066, 0x0067, 0x0068, 0x0069, 0x006A, 0x006B,
      0x006C, 0x006D, 0x006E, 0x006F, 0x0070, 0x0071, 0x0072, 0x0073,
      0x0074, 0x0075, 0x0076, 0x0077, 0x0078, 0x0079, 0x007A, 0x25BA,
      0x003A, 0x00C4, 0x00D6, 0x00DC, 0x00E4, 0x00F6, 0x00FC, 0x0000,
      0x0000, 0x0000, 0x0000, 0x0000, 0x0000, 0x0000, 0x0000, 0x0000]"

text \<open>The body of the loop of \<open>decodeText\<close>, after the test for the terminator.\<close>

definition decode_byte :: "u8 \<Rightarrow> QString \<Rightarrow> QString" where
  "decode_byte byte result =
     (let ch = GEN3_TO_UNICODE ! unat byte
      in if ch \<noteq> 0 then result @ [ch]
         else if byte = 0x00 \<or> byte = 0xA0 then result @ [0x20]
         else if byte = 0xFE then result @ [0x20]
         else if byte = 0xFA \<or> byte = 0xFB \<or> byte = 0xFC \<or> byte = 0xFD then result @ [0x20]
         else result)"

fun decode_loop :: "u8 list \<Rightarrow> QString \<Rightarrow> QString" where
  "decode_loop [] result = result"
| "decode_loop (byte # rest) result =
     (if byte = 0xFF then result else decode_loop rest (decode_byte byte result))"

text \<open>
  \<open>decodeText(data, maxLength)\<close> reads \<open>data[0]\<close> to \<open>data[maxLength - 1]\<close>; every caller
  passes a pointer to at least \<open>maxLength\<close> bytes.
\<close>

definition decodeText :: "u8 list \<Rightarrow> nat \<Rightarrow> QString" where
  "decodeText data maxLength = decode_loop (take maxLength data) []"

text \<open>The fallback loop of \<open>unicodeToGen3\<close>: the first index of the table that holds the character.\<close>

fun scan_table :: "u16 list \<Rightarrow> nat \<Rightarrow> QChar \<Rightarrow> nat option" where
  "scan_table [] i unicode = None"
| "scan_table (c # cs) i unicode = (if c = unicode then Some i else scan_table cs (i + 1) unicode)"

definition unicodeToGen3 :: "QChar \<Rightarrow> u8" where
  "unicodeToGen3 unicode =
     (if 0x30 \<le> unicode \<and> unicode \<le> 0x39 then 0xA1 + ucast (unicode - 0x30)
      else if 0x41 \<le> unicode \<and> unicode \<le> 0x5A then 0xBB + ucast (unicode - 0x41)
      else if 0x61 \<le> unicode \<and> unicode \<le> 0x7A then 0xD5 + ucast (unicode - 0x61)
      else if unicode = 0x21 then 0xAB
      else if unicode = 0x3F then 0xAC
      else if unicode = 0x2E then 0xAD
      else if unicode = 0x2D then 0xAE
      else if unicode = 0x2C then 0xB8
      else if unicode = 0x2F then 0xBA
      else if unicode = 0x3A then 0xF0
      else if unicode = 0x20 then 0x00
      else case scan_table GEN3_TO_UNICODE 0 unicode of
             Some i \<Rightarrow> of_nat i
           | None \<Rightarrow> 0x00)"

text \<open>
  \<open>encodeText(dest, text, maxLength)\<close> overwrites \<open>dest[0 .. maxLength - 1]\<close>; the model
  returns these \<open>maxLength\<close> bytes. \<open>encode_loop\<close> is the loop over the text with its
  write position.
\<close>

fun encode_loop :: "QString \<Rightarrow> nat \<Rightarrow> nat \<Rightarrow> u8 list \<Rightarrow> u8 list" where
  "encode_loop [] maxLength writePos dest = dest"
| "encode_loop (ch # rest) maxLength writePos dest =
     (if writePos < maxLength
      then encode_loop rest maxLength (writePos + 1) (dest[writePos := unicodeToGen3 ch])
      else dest)"

definition encodeText :: "QString \<Rightarrow> nat \<Rightarrow> u8 list" where
  "encodeText txt maxLength = encode_loop txt maxLength 0 (replicate maxLength 0x00)"

section \<open>mysterygift.cpp: the Wonder Card record\<close>

abbreviation (input) WONDERCARD_PAYLOAD_SIZE :: nat where "WONDERCARD_PAYLOAD_SIZE \<equiv> 332"
abbreviation (input) WONDERCARD_HEADER_SIZE :: nat where "WONDERCARD_HEADER_SIZE \<equiv> 4"
abbreviation (input) WONDERCARD_TOTAL_SIZE :: nat where "WONDERCARD_TOTAL_SIZE \<equiv> 336"
abbreviation (input) TEXT_FIELD_SIZE :: nat where "TEXT_FIELD_SIZE \<equiv> 40"

record WonderCardData =
  eventId :: u16
  icon :: u16
  count :: u32
  typeColorResend :: u8
  stampMax :: u8
  title :: QString
  subtitle :: QString
  contentLine1 :: QString
  contentLine2 :: QString
  contentLine3 :: QString
  contentLine4 :: QString
  warningLine1 :: QString
  warningLine2 :: QString

definition isEmpty :: "WonderCardData \<Rightarrow> bool" where
  "isEmpty data = (eventId data = 0 \<and> icon data = 0)"

text \<open>
  A payload shorter than 332 bytes gives the record with the five numeric fields set to
  zero (the strings are default-constructed, hence empty). A payload of exactly 336 bytes
  is read from byte 4 on.
\<close>

definition parseWonderCard :: "u8 list \<Rightarrow> WonderCardData" where
  "parseWonderCard payload =
     (if length payload < WONDERCARD_PAYLOAD_SIZE
      then \<lparr>eventId = 0, icon = 0, count = 0, typeColorResend = 0, stampMax = 0,
            title = [], subtitle = [], contentLine1 = [], contentLine2 = [],
            contentLine3 = [], contentLine4 = [], warningLine1 = [], warningLine2 = []\<rparr>
      else let bytes = (if length payload = WONDERCARD_TOTAL_SIZE
                        then drop WONDERCARD_HEADER_SIZE payload else payload)
           in \<lparr>eventId = read_u16_le bytes 0x00,
               icon = read_u16_le bytes 0x02,
               count = read_u32_le bytes 0x04,
               typeColorResend = bytes ! 0x08,
               stampMax = bytes ! 0x09,
               title = decodeText (drop 0x0A bytes) TEXT_FIELD_SIZE,
               subtitle = decodeText (drop 0x32 bytes) TEXT_FIELD_SIZE,
               contentLine1 = decodeText (drop 0x5A bytes) TEXT_FIELD_SIZE,
               contentLine2 = decodeText (drop 0x82 bytes) TEXT_FIELD_SIZE,
               contentLine3 = decodeText (drop 0xAA bytes) TEXT_FIELD_SIZE,
               contentLine4 = decodeText (drop 0xD2 bytes) TEXT_FIELD_SIZE,
               warningLine1 = decodeText (drop 0xFA bytes) TEXT_FIELD_SIZE,
               warningLine2 = decodeText (drop 0x122 bytes) TEXT_FIELD_SIZE\<rparr>)"

text \<open>\<open>memcpy(buf + off, src, length src)\<close>, byte by byte.\<close>

fun write_bytes :: "u8 list \<Rightarrow> nat \<Rightarrow> u8 list \<Rightarrow> u8 list" where
  "write_bytes buf off [] = buf"
| "write_bytes buf off (x # xs) = write_bytes (buf[off := x]) (off + 1) xs"

definition encodeWonderCard :: "WonderCardData \<Rightarrow> u8 list" where
  "encodeWonderCard data =
     (let b = replicate WONDERCARD_PAYLOAD_SIZE 0x00;
          b = b[0x00 := ucast (eventId data)];
          b = b[0x01 := ucast (drop_bit 8 (eventId data))];
          b = b[0x02 := ucast (icon data)];
          b = b[0x03 := ucast (drop_bit 8 (icon data))];
          b = b[0x04 := ucast (count data)];
          b = b[0x05 := ucast (drop_bit 8 (count data))];
          b = b[0x06 := ucast (drop_bit 16 (count data))];
          b = b[0x07 := ucast (drop_bit 24 (count data))];
          b = b[0x08 := typeColorResend data];
          b = b[0x09 := stampMax data];
          b = write_bytes b 0x0A (encodeText (title data) TEXT_FIELD_SIZE);
          b = write_bytes b 0x32 (encodeText (subtitle data) TEXT_FIELD_SIZE);
          b = write_bytes b 0x5A (encodeText (contentLine1 data) TEXT_FIELD_SIZE);
          b = write_bytes b 0x82 (encodeText (contentLine2 data) TEXT_FIELD_SIZE);
          b = write_bytes b 0xAA (encodeText (contentLine3 data) TEXT_FIELD_SIZE);
          b = write_bytes b 0xD2 (encodeText (contentLine4 data) TEXT_FIELD_SIZE);
          b = write_bytes b 0xFA (encodeText (warningLine1 data) TEXT_FIELD_SIZE);
          b = write_bytes b 0x122 (encodeText (warningLine2 data) TEXT_FIELD_SIZE)
      in b)"

section \<open>mysterygift.cpp: CRC16\<close>

text \<open>
  The loop of \<open>calculateCRC16\<close> over the index \<open>i\<close>. \<open>tableIndex\<close> is a \<open>uint8_t\<close>, so
  both table reads are inside the 512 bytes of the table.
\<close>

function crc16_loop :: "u8 list \<Rightarrow> u8 list \<Rightarrow> nat \<Rightarrow> u16 \<Rightarrow> u16" where
  "crc16_loop bytes tbl i crc =
     (if i < length bytes
      then let tableIndex = (ucast ((crc XOR ucast (bytes ! i)) AND 0xFF) :: u8);
               tableValue = (ucast (tbl ! (unat tableIndex * 2))
                             OR push_bit 8 (ucast (tbl ! (unat tableIndex * 2 + 1))) :: u16)
           in crc16_loop bytes tbl (i + 1) (tableValue XOR drop_bit 8 crc)
      else crc)"
  by pat_completeness auto
termination
  by (relation "measure (\<lambda>(bytes, tbl, i, crc). length bytes - i)") auto

declare crc16_loop.simps [simp del]

definition calculateCRC16 :: "u8 list \<Rightarrow> u8 list \<Rightarrow> u16" where
  "calculateCRC16 data crcTable =
     (if length crcTable \<noteq> 512 then 0
      else NOT (crc16_loop data crcTable 0 0x1121) AND 0xFFFF)"

section \<open>savefile.cpp: section checksum\<close>

text \<open>
  The loop \<open>for (i = 0; i < words; ++i) sum += word(i)\<close> of
  \<open>computeSectionChecksum\<close>, with 32-bit wrap-around of \<open>sum\<close>.
\<close>

function checksum_loop :: "u8 list \<Rightarrow> nat \<Rightarrow> nat \<Rightarrow> nat \<Rightarrow> u32 \<Rightarrow> u32" where
  "checksum_loop d base words i sum32 =
     (if i < words then checksum_loop d base words (i + 1) (sum32 + read_u32_le d (base + i * 4))
      else sum32)"
  by pat_completeness auto
termination
  by (relation "measure (\<lambda>(d, base, words, i, sum32). words - i)") auto

declare checksum_loop.simps [simp del]

definition computeSectionChecksum :: "u8 list \<Rightarrow> nat \<Rightarrow> nat \<Rightarrow> u16" where
  "computeSectionChecksum d base len =
     (let words = len div 4;
          sum32 = checksum_loop d base words 0 0;
          folded = (sum32 AND 0xFFFF) + drop_bit 16 sum32
      in ucast (folded AND 0xFFFF))"

section \<open>savefile.cpp: slot analysis and active-slot selection\<close>

text \<open>One iteration of the loop over the 14 sections in \<open>analyzeSaveSlot\<close>.\<close>

definition analyze_section :: "u8 list \<Rightarrow> nat \<Rightarrow> nat \<Rightarrow> SaveBlockInfo \<Rightarrow> SaveBlockInfo" where
  "analyze_section saveData baseOffset section info =
     (let sectionOffset = baseOffset + section * SECTION_SIZE;
          computed = computeSectionChecksum saveData sectionOffset CHECKSUM_DATA_LENGTH_DEFAULT;
          stored = read_u16_le saveData (sectionOffset + CHECKSUM_OFFSET);
          info1 = (if computed \<noteq> stored then info\<lparr>valid := False\<rparr> else info);
          sectionId = read_u16_le saveData (sectionOffset + SECTION_ID_OFFSET);
          saveIdx = read_u32_le saveData (sectionOffset + SAVE_INDEX_OFFSET);
          info2 = (if section = 0 then info1\<lparr>saveIndex := saveIdx\<rparr> else info1)
      in if sectionId = 0
         then info2\<lparr>gameCode := read_u32_le saveData (sectionOffset + GAME_CODE_OFFSET),
                    hasSecurityKey :=
                      (read_u32_le saveData (sectionOffset + GAME_CODE_OFFSET + 4) \<noteq> 0)\<rparr>
         else info2)"

definition analyzeSaveSlot :: "SaveFile \<Rightarrow> nat \<Rightarrow> SaveBlockInfo" where
  "analyzeSaveSlot sf slotIndex =
     fold (analyze_section (m_bytes sf) (slotIndex * (SECTION_SIZE * SECTIONS_PER_SAVE)))
       [0..<SECTIONS_PER_SAVE]
       \<lparr>blockIndex = slotIndex, saveIndex = 0, valid = True, gameCode = 0,
        hasSecurityKey = False\<rparr>"

definition findActiveSaveSlot :: "SaveFile \<Rightarrow> int" where
  "findActiveSaveSlot sf =
     (if \<not> isLoaded sf then - 1
      else let slot0 = analyzeSaveSlot sf 0; slot1 = analyzeSaveSlot sf 1
           in if valid slot0 \<and> \<not> valid slot1 then 0
              else if \<not> valid slot0 \<and> valid slot1 then 1
              else if saveIndex slot0 > saveIndex slot1 then 0 else 1)"

text \<open>\<open>getSection4ChecksumLength\<close> and \<open>getSectionChecksumLength\<close>.\<close>

definition getSection4ChecksumLength :: "SaveFile \<Rightarrow> nat" where
  "getSection4ChecksumLength sf =
     (if m_detectedGame sf = Emerald then CHECKSUM_DATA_LENGTH_SECTION4_EMERALD
      else CHECKSUM_DATA_LENGTH_SECTION4_FRLG)"

definition getSectionChecksumLength :: "SaveFile \<Rightarrow> int \<Rightarrow> nat" where
  "getSectionChecksumLength sf sectionId =
     (if sectionId = 4 then getSection4ChecksumLength sf
      else if sectionId = 0 then
        (if m_detectedGame sf = Emerald then 0xF2C
         else if m_detectedGame sf = FireRedLeafGreen then 0xF24
         else 0x890)
      else if sectionId = 13 then 0x7D0
      else CHECKSUM_DATA_LENGTH_DEFAULT)"

section \<open>savefile.cpp: loading a save\<close>

text \<open>
  \<open>detectGameType\<close> and \<open>validateChecksums\<close> store the active slot in the object and
  return a value; the models return the value together with the new state.
\<close>

definition detectGameType :: "SaveFile \<Rightarrow> GameType \<times> SaveFile" where
  "detectGameType sf =
     (if \<not> isLoaded sf then (Unknown, sf)
      else let sf1 = sf\<lparr>m_activeSaveSlot := findActiveSaveSlot sf\<rparr>
           in if m_activeSaveSlot sf1 < 0 then (Unknown, sf1)
              else let activeSlot = analyzeSaveSlot sf1 (nat (m_activeSaveSlot sf1))
                   in if gameCode activeSlot = 0x00000001 then (FireRedLeafGreen, sf1)
                      else if hasSecurityKey activeSlot \<and> gameCode activeSlot \<noteq> 0x00000001
                        then (Emerald, sf1)
                      else if gameCode activeSlot = 0x00000000 then (RubySapphire, sf1)
                      else (Unknown, sf1))"

definition validateChecksums :: "SaveFile \<Rightarrow> bool \<times> SaveFile" where
  "validateChecksums sf =
     (if \<not> isLoaded sf then (False, sf)
      else let sf1 = (if m_activeSaveSlot sf < 0
                      then sf\<lparr>m_activeSaveSlot := findActiveSaveSlot sf\<rparr> else sf)
           in if m_activeSaveSlot sf1 < 0 then (False, sf1)
              else (valid (analyzeSaveSlot sf1 (nat (m_activeSaveSlot sf1))), sf1))"

text \<open>
  \<open>loadFromFile\<close>, as a function of the bytes that \<open>file.readAll()\<close> returns (the two
  error returns for a file that does not exist or cannot be opened come before any byte is
  read and are not modelled): the state it leaves in the object, or the error message.
\<close>

definition loadFromFile :: "u8 list \<Rightarrow> string + SaveFile" where
  "loadFromFile contents =
     (if length contents \<noteq> EXPECTED_FILE_SIZE then Inl ''Invalid file size''
      else let sf0 = \<lparr>m_bytes = contents, m_detectedGame = Unknown, m_checksumValid = False,
                      m_activeSaveSlot = - 1\<rparr>;
               (game, sf1) = detectGameType sf0;
               sf2 = sf1\<lparr>m_detectedGame := game\<rparr>;
               (ok, sf3) = validateChecksums sf2
           in Inr (sf3\<lparr>m_checksumValid := ok\<rparr>))"

section \<open>savefile.cpp: locating sections\<close>

text \<open>
  \<open>m_activeSaveSlot * (SECTION_SIZE * SECTIONS_PER_SAVE)\<close>; the callers have checked that the
  slot is not negative.
\<close>

definition slotOffset :: "SaveFile \<Rightarrow> nat" where
  "slotOffset sf = nat (m_activeSaveSlot sf) * (SECTION_SIZE * SECTIONS_PER_SAVE)"


definition findSection :: "SaveFile \<Rightarrow> int \<Rightarrow> int" where
  "findSection sf sectionId =
     (if \<not> isLoaded sf \<or> m_activeSaveSlot sf < 0 then - 1
      else case find (\<lambda>pos. uint (read_u16_le (m_bytes sf)
                                  (slotOffset sf + pos * SECTION_SIZE + SECTION_ID_OFFSET))
                             = sectionId)
                  [0..<SECTIONS_PER_SAVE] of
             Some pos \<Rightarrow> int pos
           | None \<Rightarrow> - 1)"

section \<open>savefile.cpp: mutating operations\<close>

text \<open>\<open>memset(buf + off, v, n)\<close>.\<close>

definition memset_bytes :: "u8 list \<Rightarrow> nat \<Rightarrow> u8 \<Rightarrow> nat \<Rightarrow> u8 list" where
  "memset_bytes buf off v n = write_bytes buf off (replicate n v)"

text \<open>
  The statements that end both mutating operations: recompute the checksum of the section
  at \<open>base\<close> over \<open>len\<close> bytes and store it, little-endian, at \<open>CHECKSUM_OFFSET\<close>.
\<close>

definition writeSectionChecksum :: "u8 list \<Rightarrow> nat \<Rightarrow> nat \<Rightarrow> u8 list" where
  "writeSectionChecksum buf base len =
     (let checksum = computeSectionChecksum buf base len
      in buf[base + CHECKSUM_OFFSET := ucast checksum,
             base + CHECKSUM_OFFSET + 1 := ucast (drop_bit 8 checksum)])"

text \<open>
  The offsets \<open>enableMysteryGift\<close> and \<open>isMysteryGiftEnabled\<close> compute: the start of the
  physical section that holds logical section 2, and the flag byte and bit of the game.
\<close>

definition section2Offset :: "SaveFile \<Rightarrow> nat" where
  "section2Offset sf = slotOffset sf + nat (findSection sf 2) * SECTION_SIZE"

definition mysteryGiftFlagOffset :: "SaveFile \<Rightarrow> nat" where
  "mysteryGiftFlagOffset sf =
     (if m_detectedGame sf = Emerald then MYSTERY_GIFT_OFFSET_EMERALD else MYSTERY_GIFT_OFFSET_FRLG)"

definition mysteryGiftFlagBit :: "SaveFile \<Rightarrow> u8" where
  "mysteryGiftFlagBit sf =
     (if m_detectedGame sf = Emerald then MYSTERY_GIFT_BIT_EMERALD else MYSTERY_GIFT_BIT_FRLG)"

text \<open>
  \<open>enableMysteryGift\<close>: \<open>Inl\<close> carries the error message of a \<open>return false\<close>, \<open>Inr\<close> the
  state after a \<open>return true\<close>.
\<close>

definition enableMysteryGift :: "SaveFile \<Rightarrow> string + SaveFile" where
  "enableMysteryGift sf =
     (if \<not> isLoaded sf then Inl ''No save file loaded''
      else if m_detectedGame sf = Unknown
        then Inl ''Unknown game type - cannot enable Mystery Gift''
      else if m_detectedGame sf = RubySapphire
        then Inl ''Ruby/Sapphire use Mystery Event, not Mystery Gift''
      else if findSection sf 2 < 0 then Inl ''Section 2 not found in save file''
      else let section2 = section2Offset sf;
               flagOffset = mysteryGiftFlagOffset sf;
               flagBit = mysteryGiftFlagBit sf;
               currentValue = m_bytes sf ! (section2 + flagOffset)
           in if currentValue AND flagBit \<noteq> 0 then Inr sf
              else let flagged = (m_bytes sf)[section2 + flagOffset := currentValue OR flagBit];
                       checksumLength = getSectionChecksumLength sf 2
                   in Inr (sf\<lparr>m_bytes := writeSectionChecksum flagged section2 checksumLength\<rparr>))"







section \<open>gbaromreader.cpp: primitive reads\<close>

text \<open>
  \<open>static_cast<uint32_t>(m_romData.size())\<close>, and \<open>m_romData[i]\<close>: an index outside the
  buffer is an out-of-bounds access (an assertion failure or undefined behaviour in Qt),
  which the model makes visible as \<open>None\<close>.
\<close>

definition rom_size32 :: "u8 list \<Rightarrow> u32" where
  "rom_size32 rom = of_nat (length rom)"

definition byte_at :: "u8 list \<Rightarrow> nat \<Rightarrow> u8 option" where
  "byte_at rom i = (if i < length rom then Some (rom ! i) else None)"

text \<open>
  All offset arithmetic is on \<open>uint32_t\<close> and wraps around. The guard of \<open>readByte\<close> has
  no addition, so its index is inside the buffer whenever the guard lets it through
  (\<open>readByte_in_range\<close> below).
\<close>

definition readByte :: "u8 list \<Rightarrow> u32 \<Rightarrow> u8" where
  "readByte rom offset =
     (if offset \<ge> rom_size32 rom then 0 else rom ! unat offset)"

definition readHalfWord :: "u8 list \<Rightarrow> u32 \<Rightarrow> u16 option" where
  "readHalfWord rom offset =
     (if offset + 1 \<ge> rom_size32 rom then Some 0
      else case (byte_at rom (unat offset), byte_at rom (unat (offset + 1))) of
             (Some lo, Some hi) \<Rightarrow> Some (ucast lo OR push_bit 8 (ucast hi))
           | _ \<Rightarrow> None)"

definition readWord :: "u8 list \<Rightarrow> u32 \<Rightarrow> u32 option" where
  "readWord rom offset =
     (if offset + 3 \<ge> rom_size32 rom then Some 0
      else case (byte_at rom (unat offset), byte_at rom (unat (offset + 1)),
                 byte_at rom (unat (offset + 2)), byte_at rom (unat (offset + 3))) of
             (Some b0, Some b1, Some b2, Some b3) \<Rightarrow>
               Some (ucast b0 OR push_bit 8 (ucast b1) OR push_bit 16 (ucast b2)
                     OR push_bit 24 (ucast b3))
           | _ \<Rightarrow> None)"

section \<open>gbaromreader.cpp: LZ77 decompression\<close>

text \<open>
  The inner loop of a back-reference: \<open>length\<close> bytes are appended one at a time, each read
  from the output produced so far at \<open>copyPos + j\<close>, and the loop stops early once the
  declared size is reached.
\<close>

function lz_copy :: "nat \<Rightarrow> nat \<Rightarrow> nat \<Rightarrow> nat \<Rightarrow> u8 list \<Rightarrow> u8 list" where
  "lz_copy decompressedSize copyPos len j decompressed =
     (if j < len
      then if length decompressed \<ge> decompressedSize then decompressed
           else lz_copy decompressedSize copyPos len (j + 1)
                  (decompressed @ [decompressed ! (copyPos + j)])
      else decompressed)"
  by pat_completeness auto
termination
  by (relation "measure (\<lambda>(decompressedSize, copyPos, len, j, decompressed). len - j)") auto

declare lz_copy.simps [simp del]

text \<open>
  The length (3 to 18) and the displacement (1 to 4096) that the two bytes of a
  back-reference encode.
\<close>

definition lz_block_length :: "u8 \<Rightarrow> nat" where
  "lz_block_length byte1 = unat (drop_bit 4 byte1 AND 0x0F) + 3"

definition lz_block_displacement :: "u8 \<Rightarrow> u8 \<Rightarrow> nat" where
  "lz_block_displacement byte1 byte2 =
     unat (push_bit 8 (ucast (byte1 AND 0x0F)) OR ucast byte2 :: u32) + 1"

text \<open>
  The loop over the 8 blocks of one flag byte. The result is the error message of a
  \<open>return QByteArray()\<close>, or the source position and the output after the blocks.
  \<open>srcPos\<close> stays below the 32-bit size of the buffer, so no addition on it wraps.
\<close>

function lz_blocks ::
  "u8 list \<Rightarrow> nat \<Rightarrow> nat \<Rightarrow> u8 \<Rightarrow> nat \<Rightarrow> u8 list \<Rightarrow> string + (nat \<times> u8 list)" where
  "lz_blocks rom decompressedSize i flags srcPos decompressed =
     (if i < 8
      then if length decompressed \<ge> decompressedSize then Inr (srcPos, decompressed)
           else if srcPos \<ge> unat (rom_size32 rom) then Inl ''Unexpected end of compressed data''
           else if flags AND 0x80 \<noteq> 0
             then if srcPos + 1 \<ge> unat (rom_size32 rom)
                  then Inl ''Unexpected end of compressed data''
                  else if length decompressed
                            < lz_block_displacement (rom ! srcPos) (rom ! (srcPos + 1))
                    then Inl ''Invalid LZ77 displacement''
                    else lz_blocks rom decompressedSize (i + 1) (push_bit 1 flags) (srcPos + 2)
                           (lz_copy decompressedSize
                              (length decompressed
                               - lz_block_displacement (rom ! srcPos) (rom ! (srcPos + 1)))
                              (lz_block_length (rom ! srcPos)) 0 decompressed)
             else lz_blocks rom decompressedSize (i + 1) (push_bit 1 flags) (srcPos + 1)
                    (decompressed @ [rom ! srcPos])
      else Inr (srcPos, decompressed))"
  by pat_completeness auto
termination
  by (relation "measure (\<lambda>(rom, decompressedSize, i, flags, srcPos, decompressed). 8 - i)") auto

declare lz_blocks.simps [simp del]

lemma lz_blocks_srcPos:
  "lz_blocks rom dsize i flags srcPos out = Inr (srcPos', out') \<Longrightarrow> srcPos \<le> srcPos'"
proof (induction rom dsize i flags srcPos out rule: lz_blocks.induct)
  case (1 rom dsize i flags srcPos out)
  from "1.prems" "1.IH" show ?case
    by (subst (asm) lz_blocks.simps) (fastforce split: if_splits)
qed

text \<open>
  The outer loop: while the output is shorter than the declared size, read a flag byte and
  process its blocks.
\<close>

function lz_loop :: "u8 list \<Rightarrow> nat \<Rightarrow> nat \<Rightarrow> u8 list \<Rightarrow> string + u8 list" where
  "lz_loop rom decompressedSize srcPos decompressed =
     (if length decompressed < decompressedSize
      then if srcPos \<ge> unat (rom_size32 rom) then Inl ''Unexpected end of compressed data''
           else case lz_blocks rom decompressedSize 0 (rom ! srcPos) (srcPos + 1) decompressed of
                  Inl e \<Rightarrow> Inl e
                | Inr (srcPos', decompressed') \<Rightarrow>
                    lz_loop rom decompressedSize srcPos' decompressed'
      else Inr decompressed)"
  by pat_completeness auto
termination
proof (relation "measure (\<lambda>(rom, decompressedSize, srcPos, decompressed).
                           unat (rom_size32 rom) - srcPos)", goal_cases)
  case 1
  show ?case by simp
next
  case (2 rom decompressedSize srcPos decompressed x2 srcPos' decompressed')
  then have "srcPos + 1 \<le> srcPos'" using lz_blocks_srcPos by metis
  with 2 show ?case by auto
qed

declare lz_loop.simps [simp del]

text \<open>
  The declared size: the three bytes after the header byte, little-endian, each read with
  \<open>readByte\<close>.
\<close>

definition lz77_declared_size :: "u8 list \<Rightarrow> u32 \<Rightarrow> u32" where
  "lz77_declared_size rom offset =
     ucast (readByte rom (offset + 1)) OR push_bit 8 (ucast (readByte rom (offset + 2)))
     OR push_bit 16 (ucast (readByte rom (offset + 3)))"

text \<open>
  \<open>decompressLZ77\<close>: \<open>Inl\<close> is an error return (the empty array with the error message
  set; the messages are modelled without the formatted numbers), \<open>Inr\<close> the decompressed
  bytes.
\<close>

definition decompressLZ77 :: "u8 list \<Rightarrow> u32 \<Rightarrow> string + u8 list" where
  "decompressLZ77 rom offset =
     (if offset + 4 > rom_size32 rom then Inl ''Offset out of bounds''
      else if readByte rom offset \<noteq> 0x10 then Inl ''Not LZ77 compressed data''
      else let decompressedSize = lz77_declared_size rom offset
           in if decompressedSize = 0 \<or> decompressedSize > 0x100000
              then Inl ''Invalid decompressed size''
              else lz_loop rom (unat decompressedSize) (unat (offset + 4)) [])"

chapter \<open>What the claims are stated about\<close>

section \<open>Slot validity and save counters\<close>

text \<open>
  What the selection is stated about: the stored checksum of every section of a slot equals
  the checksum computed by \<open>analyzeSaveSlot\<close> (over \<open>CHECKSUM_DATA_LENGTH_DEFAULT\<close> bytes),
  and the save counter of a slot, which \<open>analyzeSaveSlot\<close> reads from the footer of the
  slot's first physical section.
\<close>

definition section_checksum_ok :: "u8 list \<Rightarrow> nat \<Rightarrow> nat \<Rightarrow> nat \<Rightarrow> bool" where
  "section_checksum_ok d slot section len =
     (computeSectionChecksum d (slot * (SECTION_SIZE * SECTIONS_PER_SAVE) + section * SECTION_SIZE) len
      = read_u16_le d (slot * (SECTION_SIZE * SECTIONS_PER_SAVE) + section * SECTION_SIZE
                       + CHECKSUM_OFFSET))"

definition slot_checksums_ok :: "SaveFile \<Rightarrow> nat \<Rightarrow> bool" where
  "slot_checksums_ok sf slot =
     (\<forall>section \<in> set [0..<SECTIONS_PER_SAVE].
        section_checksum_ok (m_bytes sf) slot section CHECKSUM_DATA_LENGTH_DEFAULT)"

definition slot_save_counter :: "SaveFile \<Rightarrow> nat \<Rightarrow> u32" where
  "slot_save_counter sf slot =
     read_u32_le (m_bytes sf) (slot * (SECTION_SIZE * SECTIONS_PER_SAVE) + SAVE_INDEX_OFFSET)"

text \<open>
  The reading of the specification: every section is checked over the length that
  \<open>getSectionChecksumLength\<close> gives for the logical id stored in its footer.
\<close>

definition section_logical_id :: "u8 list \<Rightarrow> nat \<Rightarrow> nat \<Rightarrow> int" where
  "section_logical_id d slot section =
     uint (read_u16_le d (slot * (SECTION_SIZE * SECTIONS_PER_SAVE) + section * SECTION_SIZE
                          + SECTION_ID_OFFSET))"

definition slot_checksums_ok_per_section :: "SaveFile \<Rightarrow> nat \<Rightarrow> bool" where
  "slot_checksums_ok_per_section sf slot =
     (\<forall>section \<in> set [0..<SECTIONS_PER_SAVE].
        section_checksum_ok (m_bytes sf) slot section
          (getSectionChecksumLength sf (section_logical_id (m_bytes sf) slot section)))"

section \<open>The CRC of the specification\<close>

text \<open>
  The specification's description of the CRC: one step per input byte, from the seed
  \<open>0x1121\<close>, and the bitwise complement at the end.
\<close>

definition crc16_step :: "u8 list \<Rightarrow> u16 \<Rightarrow> u8 \<Rightarrow> u16" where
  "crc16_step tbl crc byte =
     read_u16_le tbl (unat ((crc XOR ucast byte) AND 0xFF) * 2) XOR drop_bit 8 crc"

definition crc16_spec :: "u8 list \<Rightarrow> u8 list \<Rightarrow> u16" where
  "crc16_spec data tbl = NOT (foldl (crc16_step tbl) 0x1121 data)"

section \<open>Text-table entries and representable bytes\<close>

text \<open>
  A byte has a text-table entry when its entry in \<open>GEN3_TO_UNICODE\<close> is a character; one
  round trip encodes a string into a field of \<open>n\<close> bytes and decodes the field.
\<close>

definition has_table_entry :: "u8 \<Rightarrow> bool" where
  "has_table_entry b = (GEN3_TO_UNICODE ! unat b \<noteq> 0)"

definition text_round_trip :: "nat \<Rightarrow> QString \<Rightarrow> QString" where
  "text_round_trip n s = decodeText (encodeText s n) n"

text \<open>
  A byte is representable when the encoder produces it for a character of the text table;
  the padding byte \<open>0x00\<close> is one of them (it encodes the space).
\<close>

definition representable :: "u8 \<Rightarrow> bool" where
  "representable b = (b \<in> set (map unicodeToGen3 (filter (\<lambda>c. c \<noteq> 0) GEN3_TO_UNICODE)))"

definition text_fields_representable :: "u8 list \<Rightarrow> bool" where
  "text_fields_representable payload =
     list_all representable (take (8 * TEXT_FIELD_SIZE) (drop 0x0A payload))"

section \<open>Well-formed LZ77 streams and their layout\<close>

text \<open>
  The layout of a stream, after the specification: a walk over the flag groups that follows
  the source position and records for every output position where its byte comes from.
  \<open>Literal b\<close> is a position that holds the literal byte \<open>b\<close> of the stream, \<open>Copied d\<close> a
  position written by a back-reference with displacement \<open>d\<close>. A back-reference of length
  \<open>n\<close> contributes \<open>n\<close> positions, or as many as are left until the declared length. The
  walk fails when a flag byte, a literal or one of the two bytes of a back-reference is
  outside the buffer, or when a displacement is larger than the number of bytes produced so
  far.
\<close>

datatype lz_origin = Literal u8 | Copied nat

function lz_layout_blocks ::
  "u8 list \<Rightarrow> nat \<Rightarrow> nat \<Rightarrow> u8 \<Rightarrow> nat \<Rightarrow> lz_origin list \<Rightarrow> (nat \<times> lz_origin list) option" where
  "lz_layout_blocks rom declared i flags srcPos layout =
     (if i < 8 \<and> length layout < declared
      then if flags AND 0x80 \<noteq> 0
           then if srcPos + 1 < unat (rom_size32 rom)
                   \<and> lz_block_displacement (rom ! srcPos) (rom ! (srcPos + 1)) \<le> length layout
                then lz_layout_blocks rom declared (i + 1) (push_bit 1 flags) (srcPos + 2)
                       (layout @ replicate (min (lz_block_length (rom ! srcPos))
                                                (declared - length layout))
                                   (Copied (lz_block_displacement (rom ! srcPos) (rom ! (srcPos + 1)))))
                else None
           else if srcPos < unat (rom_size32 rom)
                then lz_layout_blocks rom declared (i + 1) (push_bit 1 flags) (srcPos + 1)
                       (layout @ [Literal (rom ! srcPos)])
                else None
      else Some (srcPos, layout))"
  by pat_completeness auto
termination
  by (relation "measure (\<lambda>(rom, declared, i, flags, srcPos, layout). 8 - i)") auto

declare lz_layout_blocks.simps [simp del]

lemma lz_layout_blocks_srcPos:
  "lz_layout_blocks rom declared i flags srcPos layout = Some (srcPos', layout') \<Longrightarrow> srcPos \<le> srcPos'"
proof (induction rom declared i flags srcPos layout rule: lz_layout_blocks.induct)
  case (1 rom declared i flags srcPos layout)
  from "1.prems" "1.IH" show ?case
    by (subst (asm) lz_layout_blocks.simps) (fastforce split: if_splits)
qed

function lz_layout_stream :: "u8 list \<Rightarrow> nat \<Rightarrow> nat \<Rightarrow> lz_origin list \<Rightarrow> lz_origin list option" where
  "lz_layout_stream rom declared srcPos layout =
     (if length layout < declared
      then if srcPos < unat (rom_size32 rom)
           then case lz_layout_blocks rom declared 0 (rom ! srcPos) (srcPos + 1) layout of
                  None \<Rightarrow> None
                | Some (srcPos', layout') \<Rightarrow> lz_layout_stream rom declared srcPos' layout'
           else None
      else Some layout)"
  by pat_completeness auto
termination
proof (relation "measure (\<lambda>(rom, declared, srcPos, layout). unat (rom_size32 rom) - srcPos)",
    goal_cases)
  case 1
  show ?case by simp
next
  case (2 rom declared srcPos layout x2 srcPos' layout')
  then have "srcPos + 1 \<le> srcPos'" using lz_layout_blocks_srcPos by metis
  with 2 show ?case by auto
qed

declare lz_layout_stream.simps [simp del]

definition lz77_layout :: "u8 list \<Rightarrow> u32 \<Rightarrow> lz_origin list option" where
  "lz77_layout rom offset =
     (if \<not> offset + 4 > rom_size32 rom \<and> readByte rom offset = 0x10
         \<and> lz77_declared_size rom offset \<noteq> 0 \<and> \<not> lz77_declared_size rom offset > 0x100000
      then lz_layout_stream rom (unat (lz77_declared_size rom offset)) (unat (offset + 4)) []
      else None)"

text \<open>A stream is well-formed when its header is accepted and the walk over its body succeeds.\<close>

definition lz77_well_formed :: "u8 list \<Rightarrow> u32 \<Rightarrow> bool" where
  "lz77_well_formed rom offset = (lz77_layout rom offset \<noteq> None)"

text \<open>
  An output follows a layout when both have the same length, every literal position holds
  its literal and every copied position holds the byte \<open>d\<close> positions before it.
\<close>

fun origin_ok :: "u8 list \<Rightarrow> nat \<Rightarrow> lz_origin \<Rightarrow> bool" where
  "origin_ok out k (Literal b) = (out ! k = b)"
| "origin_ok out k (Copied d) = (1 \<le> d \<and> d \<le> k \<and> out ! k = out ! (k - d))"

definition follows_layout :: "u8 list \<Rightarrow> lz_origin list \<Rightarrow> bool" where
  "follows_layout out layout =
     (length out = length layout
      \<and> list_all (\<lambda>k. origin_ok out k (layout ! k)) [0..<length out])"

chapter \<open>Concrete inputs\<close>

section \<open>Concrete save buffers\<close>

text \<open>
  A 131072-byte buffer that is zero except for the first data byte of slot 0 (which breaks
  the checksum of its first section) and the save counter of slot 0, set to 5.
\<close>

definition witness_bytes :: "u8 list" where
  "witness_bytes =
     map (\<lambda>p. if p = 0 then 1 else if p = SAVE_INDEX_OFFSET then 5 else 0) [0..<EXPECTED_FILE_SIZE]"

definition witness_save :: SaveFile where
  "witness_save = \<lparr>m_bytes = witness_bytes, m_detectedGame = Unknown, m_checksumValid = False,
                    m_activeSaveSlot = - 1\<rparr>"

text \<open>
  A buffer whose sections carry the logical ids 0 to 13 in their footers and stored
  checksums of 0, and that is zero elsewhere except for one byte at offset \<open>0xF10\<close> of
  the section with id 4 of slot 0: past the Emerald data length of that section
  (\<open>0xF08\<close>), inside the default length (\<open>0xF80\<close>).
\<close>

definition drift_bytes :: "u8 list" where
  "drift_bytes =
     map (\<lambda>p. if p = 4 * SECTION_SIZE + 0xF10 then 1
              else if p mod SECTION_SIZE = SECTION_ID_OFFSET
                   then of_nat (p div SECTION_SIZE mod SECTIONS_PER_SAVE)
              else 0) [0..<EXPECTED_FILE_SIZE]"

definition drift_save :: SaveFile where
  "drift_save = \<lparr>m_bytes = drift_bytes, m_detectedGame = Emerald, m_checksumValid = False,
                  m_activeSaveSlot = 0\<rparr>"

text \<open>
  \<open>drift_bytes\<close> with the first data byte of slot 1 set to 1 and the save counter of slot 1
  set to 9: slot 0 is as in \<open>drift_bytes\<close>, and the first section of slot 1 has a stored
  checksum of 0 and a data word of 1, a mismatch over every checksum length. The state is the
  one in which \<open>loadFromFile\<close> calls \<open>findActiveSaveSlot\<close>, for an arbitrary game.
\<close>

definition mixed_bytes :: "u8 list" where
  "mixed_bytes = drift_bytes[SECTION_SIZE * SECTIONS_PER_SAVE := 1,
                             SECTION_SIZE * SECTIONS_PER_SAVE + SAVE_INDEX_OFFSET := 9]"

definition mixed_save :: "GameType \<Rightarrow> SaveFile" where
  "mixed_save g = \<lparr>m_bytes = mixed_bytes, m_detectedGame = g, m_checksumValid = False,
                    m_activeSaveSlot = - 1\<rparr>"

text \<open>
  A save of Emerald with two valid slots: the sections carry the logical ids 0 to 13, the
  section with id 0 of slot 0 holds a security key of 1 (and a game code of 0), a stored
  checksum of 1 and a save counter of 1, and everything else is zero. \<open>emerald_save\<close> is
  the state \<open>loadFromFile\<close> produces from these bytes (\<open>emerald_loaded\<close> below).
\<close>

definition emerald_bytes :: "u8 list" where
  "emerald_bytes =
     map (\<lambda>p. if p = GAME_CODE_OFFSET + 4 \<or> p = CHECKSUM_OFFSET \<or> p = SAVE_INDEX_OFFSET then 1
              else if p mod SECTION_SIZE = SECTION_ID_OFFSET
                   then of_nat (p div SECTION_SIZE mod SECTIONS_PER_SAVE)
              else 0) [0..<EXPECTED_FILE_SIZE]"

definition emerald_save :: SaveFile where
  "emerald_save = \<lparr>m_bytes = emerald_bytes, m_detectedGame = Emerald, m_checksumValid = True,
                    m_activeSaveSlot = 0\<rparr>"

text \<open>
  \<open>emerald_save\<close> after \<open>enableMysteryGift\<close>: the Mystery Gift bit of Emerald is set in
  logical section 2, and the stored checksum of that section is \<open>0x0800\<close>.
\<close>

definition enabled_save :: SaveFile where
  "enabled_save = emerald_save\<lparr>m_bytes :=
     emerald_bytes[2 * SECTION_SIZE + MYSTERY_GIFT_OFFSET_EMERALD := MYSTERY_GIFT_BIT_EMERALD,
                   2 * SECTION_SIZE + CHECKSUM_OFFSET := 0x00,
                   2 * SECTION_SIZE + CHECKSUM_OFFSET + 1 := 0x08]\<rparr>"

section \<open>Concrete payloads, options and streams\<close>

text \<open>
  A 332-byte payload with empty, zero-padded text fields whose trailing bytes (offsets 330
  and 331, after the last text field) are not both zero.
\<close>

definition trailing_payload :: "u8 list" where
  "trailing_payload = replicate 330 0x00 @ [0x01, 0x00]"

text \<open>A payload with the title \<open>TEST\<close>, event id 1, icon \<open>0x00F9\<close> and count 1.\<close>

definition test_payload :: "u8 list" where
  "test_payload = [0x01, 0x00, 0xF9, 0x00, 0x01, 0x00, 0x00, 0x00, 0x04, 0x00]
     @ [0xCE, 0xBF, 0xCD, 0xCE] @ replicate 316 0x00 @ [0x00, 0x00]"



text \<open>
  A stream of 9 bytes that declares 7 bytes of output: the literals \<open>0x41\<close> and \<open>0x42\<close>,
  then a back-reference of length 5 with displacement 2, which overlaps the write cursor.
\<close>

definition overlap_stream :: "u8 list" where
  "overlap_stream = [0x10, 0x07, 0x00, 0x00, 0x20, 0x41, 0x42, 0x20, 0x01]"

chapter \<open>Proofs\<close>

section \<open>Facts about the checksum\<close>

lemma checksum_loop_sum:
  "checksum_loop d base words i s = s + (\<Sum>k = i..<words. read_u32_le d (base + k * 4))"
proof (induction d base words i s rule: checksum_loop.induct)
  case (1 d base words i s)
  show ?case
  proof (cases "i < words")
    case True
    then show ?thesis
      using "1.IH" by (subst checksum_loop.simps) (simp add: sum.atLeast_Suc_lessThan add.assoc)
  next
    case False
    then show ?thesis by (subst checksum_loop.simps) simp
  qed
qed

lemma read_u32_le_cong:
  assumes "\<forall>j < 4. d ! (p + j) = d' ! (p + j)"
  shows "read_u32_le d p = read_u32_le d' p"
proof -
  have "d ! p = d' ! p" using assms [rule_format, of 0] by simp
  moreover have "d ! (p + 1) = d' ! (p + 1)" using assms [rule_format, of 1] by simp
  moreover have "d ! (p + 2) = d' ! (p + 2)" using assms [rule_format, of 2] by simp
  moreover have "d ! (p + 3) = d' ! (p + 3)" using assms [rule_format, of 3] by simp
  ultimately show ?thesis by (simp add: read_u32_le_def)
qed

lemma computeSectionChecksum_cong:
  assumes "\<forall>p. base \<le> p \<and> p < base + len \<longrightarrow> d ! p = d' ! p"
  shows "computeSectionChecksum d base len = computeSectionChecksum d' base len"
proof -
  have "read_u32_le d (base + k * 4) = read_u32_le d' (base + k * 4)" if "k < len div 4" for k
  proof (rule read_u32_le_cong, intro allI impI)
    fix j :: nat assume "j < 4"
    with that have "base + k * 4 + j < base + len" by simp
    with assms show "d ! (base + k * 4 + j) = d' ! (base + k * 4 + j)" by simp
  qed
  then have "(\<Sum>k = 0..<len div 4. read_u32_le d (base + k * 4))
           = (\<Sum>k = 0..<len div 4. read_u32_le d' (base + k * 4))"
    by (intro sum.cong) simp_all
  then show ?thesis
    by (simp add: computeSectionChecksum_def checksum_loop_sum)
qed

lemma valid_analyze_section:
  "valid (analyze_section d base s info) =
     (valid info \<and> computeSectionChecksum d (base + s * SECTION_SIZE) CHECKSUM_DATA_LENGTH_DEFAULT
        = read_u16_le d (base + s * SECTION_SIZE + CHECKSUM_OFFSET))"
  by (auto simp: analyze_section_def Let_def)

lemma saveIndex_analyze_section:
  "saveIndex (analyze_section d base s info) =
     (if s = 0 then read_u32_le d (base + SAVE_INDEX_OFFSET) else saveIndex info)"
  by (simp add: analyze_section_def Let_def)

lemma valid_fold_analyze:
  "valid (fold (analyze_section d base) xs info) =
     (valid info \<and> (\<forall>s \<in> set xs.
        computeSectionChecksum d (base + s * SECTION_SIZE) CHECKSUM_DATA_LENGTH_DEFAULT
        = read_u16_le d (base + s * SECTION_SIZE + CHECKSUM_OFFSET)))"
  by (induction xs arbitrary: info) (auto simp: valid_analyze_section)

lemma saveIndex_fold_analyze:
  "0 \<notin> set xs \<Longrightarrow> saveIndex (fold (analyze_section d base) xs info) = saveIndex info"
  by (induction xs arbitrary: info) (auto simp: saveIndex_analyze_section)

lemma valid_analyzeSaveSlot: "valid (analyzeSaveSlot sf slot) = slot_checksums_ok sf slot"
  by (simp add: analyzeSaveSlot_def valid_fold_analyze slot_checksums_ok_def
      section_checksum_ok_def del: upt.simps set_upt)

lemma saveIndex_analyzeSaveSlot: "saveIndex (analyzeSaveSlot sf slot) = slot_save_counter sf slot"
proof -
  have "[0..<SECTIONS_PER_SAVE] = 0 # [1..<SECTIONS_PER_SAVE]"
    by (simp add: upt_conv_Cons)
  then show ?thesis
    by (simp add: analyzeSaveSlot_def saveIndex_fold_analyze saveIndex_analyze_section
        slot_save_counter_def del: upt.simps)
qed

lemma read_u32_le_zero:
  assumes "\<forall>j < 4. d ! (p + j) = 0"
  shows "read_u32_le d p = 0"
proof -
  have "d ! p = 0" using assms [rule_format, of 0] by simp
  moreover have "d ! (p + 1) = 0" using assms [rule_format, of 1] by simp
  moreover have "d ! (p + 2) = 0" using assms [rule_format, of 2] by simp
  moreover have "d ! (p + 3) = 0" using assms [rule_format, of 3] by simp
  ultimately show ?thesis by (simp add: read_u32_le_def)
qed

lemma computeSectionChecksum_zero:
  assumes "\<forall>p. base \<le> p \<and> p < base + len \<longrightarrow> d ! p = 0"
  shows "computeSectionChecksum d base len = 0"
proof -
  have "read_u32_le d (base + k * 4) = 0" if "k < len div 4" for k
  proof (rule read_u32_le_zero, intro allI impI)
    fix j :: nat assume "j < 4"
    with that have "base + k * 4 + j < base + len" by simp
    with assms show "d ! (base + k * 4 + j) = 0" by simp
  qed
  then have "(\<Sum>k = 0..<len div 4. read_u32_le d (base + k * 4)) = 0"
    by (intro sum.neutral) simp
  then show ?thesis
    by (simp add: computeSectionChecksum_def checksum_loop_sum)
qed

lemma computeSectionChecksum_single:
  assumes "k0 < len div 4"
    and "\<forall>k < len div 4. k \<noteq> k0 \<longrightarrow> read_u32_le d (base + k * 4) = 0"
  shows "computeSectionChecksum d base len =
         (let w = read_u32_le d (base + k0 * 4) in ucast (((w AND 0xFFFF) + drop_bit 16 w) AND 0xFFFF))"
proof -
  have "(\<Sum>k = 0..<len div 4. read_u32_le d (base + k * 4))
      = (\<Sum>k = 0..<len div 4. if k = k0 then read_u32_le d (base + k0 * 4) else 0)"
    using assms(2) by (intro sum.cong) auto
  also have "\<dots> = read_u32_le d (base + k0 * 4)"
    using assms(1) by (simp add: sum.delta)
  finally show ?thesis
    by (simp add: computeSectionChecksum_def checksum_loop_sum Let_def)
qed

lemma witness_bytes_nth:
  "p < EXPECTED_FILE_SIZE \<Longrightarrow> witness_bytes ! p = (if p = 0 then 1 else if p = SAVE_INDEX_OFFSET then 5 else 0)"
  unfolding witness_bytes_def by (simp del: upt.simps)

lemma witness_bytes_length: "length witness_bytes = EXPECTED_FILE_SIZE"
  by (simp add: witness_bytes_def del: upt.simps)

lemma witness_slot1_ok: "slot_checksums_ok witness_save 1"
proof -
  have "section_checksum_ok witness_bytes 1 s CHECKSUM_DATA_LENGTH_DEFAULT" if "s < SECTIONS_PER_SAVE" for s
  proof -
    have "computeSectionChecksum witness_bytes (1 * (SECTION_SIZE * SECTIONS_PER_SAVE) + s * SECTION_SIZE) CHECKSUM_DATA_LENGTH_DEFAULT = 0"
      using that by (intro computeSectionChecksum_zero) (auto simp: witness_bytes_nth)
    moreover have "read_u16_le witness_bytes (1 * (SECTION_SIZE * SECTIONS_PER_SAVE) + s * SECTION_SIZE + CHECKSUM_OFFSET) = 0"
      using that by (simp add: read_u16_le_def witness_bytes_nth)
    ultimately show ?thesis by (simp add: section_checksum_ok_def)
  qed
  then show ?thesis by (simp add: slot_checksums_ok_def witness_save_def del: upt.simps)
qed

lemma witness_slot0_bad: "\<not> slot_checksums_ok witness_save 0"
proof -
  have "computeSectionChecksum witness_bytes 0 CHECKSUM_DATA_LENGTH_DEFAULT = 1"
  proof -
    have "\<forall>k < CHECKSUM_DATA_LENGTH_DEFAULT div 4. k \<noteq> 0 \<longrightarrow> read_u32_le witness_bytes (0 + k * 4) = 0"
      by (auto intro!: read_u32_le_zero simp: witness_bytes_nth)
    then have "computeSectionChecksum witness_bytes 0 CHECKSUM_DATA_LENGTH_DEFAULT =
         (let w = read_u32_le witness_bytes (0 + 0 * 4) in ucast (((w AND 0xFFFF) + drop_bit 16 w) AND 0xFFFF))"
      by (intro computeSectionChecksum_single) simp_all
    then show ?thesis by (simp add: read_u32_le_def witness_bytes_nth)
  qed
  moreover have "read_u16_le witness_bytes CHECKSUM_OFFSET = 0"
    by (simp add: read_u16_le_def witness_bytes_nth)
  ultimately have "\<not> section_checksum_ok witness_bytes 0 0 CHECKSUM_DATA_LENGTH_DEFAULT"
    by (simp add: section_checksum_ok_def)
  then show ?thesis by (auto simp: slot_checksums_ok_def witness_save_def simp del: upt.simps)
qed

lemma witness_counters: "slot_save_counter witness_save 0 > slot_save_counter witness_save 1"
  by (simp add: slot_save_counter_def witness_save_def read_u32_le_def witness_bytes_nth)

section \<open>The concrete save buffers\<close>

subsection \<open>The buffer with data past a section's own length\<close>

lemma section_offset_split:
  fixes s q s' q' :: nat
  assumes "q < SECTION_SIZE" "q' < SECTION_SIZE" "s * SECTION_SIZE + q = s' * SECTION_SIZE + q'"
  shows "s = s' \<and> q = q'"
proof -
  have "(s * SECTION_SIZE + q) div SECTION_SIZE = s" "(s' * SECTION_SIZE + q') div SECTION_SIZE = s'"
       "(s * SECTION_SIZE + q) mod SECTION_SIZE = q" "(s' * SECTION_SIZE + q') mod SECTION_SIZE = q'"
    using assms(1,2) by simp_all
  with assms(3) show ?thesis by simp
qed

lemma drift_bytes_nth:
  "p < EXPECTED_FILE_SIZE \<Longrightarrow> drift_bytes ! p =
     (if p = 4 * SECTION_SIZE + 0xF10 then 1
      else if p mod SECTION_SIZE = SECTION_ID_OFFSET
           then of_nat (p div SECTION_SIZE mod SECTIONS_PER_SAVE)
      else 0)"
  unfolding drift_bytes_def by (simp del: upt.simps)

lemma drift_section_nth:
  assumes "s < SECTIONS_PER_SAVE" "q < SECTION_SIZE"
  shows "drift_bytes ! (s * SECTION_SIZE + q) =
     (if s = 4 \<and> q = 0xF10 then 1 else if q = SECTION_ID_OFFSET then of_nat s else 0)"
proof -
  have "(s * SECTION_SIZE + q) mod SECTION_SIZE = q" "(s * SECTION_SIZE + q) div SECTION_SIZE = s"
    using assms by simp_all
  moreover have "s * SECTION_SIZE + q = 4 * SECTION_SIZE + 0xF10 \<longleftrightarrow> s = 4 \<and> q = 0xF10"
    using assms section_offset_split [of q "0xF10" s 4] by auto
  moreover have "s * SECTION_SIZE + q < EXPECTED_FILE_SIZE" using assms by simp
  ultimately show ?thesis using assms(1) by (simp add: drift_bytes_nth)
qed

lemma drift_footer:
  assumes "s < SECTIONS_PER_SAVE"
  shows "read_u16_le drift_bytes (s * SECTION_SIZE + SECTION_ID_OFFSET) = of_nat s"
    and "read_u16_le drift_bytes (s * SECTION_SIZE + CHECKSUM_OFFSET) = 0"
proof -
  have s8: "(ucast (of_nat s :: u8) :: u16) = of_nat s"
    using assms by (simp add: unsigned_of_nat take_bit_nat_eq_self)
  have a: "drift_bytes ! (s * SECTION_SIZE + SECTION_ID_OFFSET) = of_nat s"
    using drift_section_nth [OF assms, of SECTION_ID_OFFSET] by simp
  have e: "s * SECTION_SIZE + SECTION_ID_OFFSET + 1 = s * SECTION_SIZE + 0xFF5"
          "s * SECTION_SIZE + CHECKSUM_OFFSET + 1 = s * SECTION_SIZE + 0xFF7"
    by simp_all
  have b: "drift_bytes ! (s * SECTION_SIZE + SECTION_ID_OFFSET + 1) = 0"
    unfolding e using drift_section_nth [OF assms, of "0xFF5"] by simp
  have c: "drift_bytes ! (s * SECTION_SIZE + CHECKSUM_OFFSET) = 0"
    using drift_section_nth [OF assms, of CHECKSUM_OFFSET] by simp
  have d: "drift_bytes ! (s * SECTION_SIZE + CHECKSUM_OFFSET + 1) = 0"
    unfolding e using drift_section_nth [OF assms, of "0xFF7"] by simp
  show "read_u16_le drift_bytes (s * SECTION_SIZE + SECTION_ID_OFFSET) = of_nat s"
    unfolding read_u16_le_def a b using s8 by simp
  show "read_u16_le drift_bytes (s * SECTION_SIZE + CHECKSUM_OFFSET) = 0"
    unfolding read_u16_le_def c d by simp
qed

lemma drift_logical_id:
  assumes "s < SECTIONS_PER_SAVE"
  shows "section_logical_id drift_bytes 0 s = int s"
  using assms drift_footer(1) [OF assms]
  by (simp add: section_logical_id_def uint_nat unat_of_nat take_bit_nat_eq_self)

lemma drift_lengths:
  "getSectionChecksumLength drift_save (int s) \<le> CHECKSUM_DATA_LENGTH_DEFAULT"
  "getSectionChecksumLength drift_save 4 = 0xF08"
  by (simp_all add: getSectionChecksumLength_def getSection4ChecksumLength_def drift_save_def)

lemma drift_per_section_ok: "slot_checksums_ok_per_section drift_save 0"
proof -
  have "section_checksum_ok drift_bytes 0 s (getSectionChecksumLength drift_save (int s))"
    if s: "s < SECTIONS_PER_SAVE" for s
  proof -
    let ?len = "getSectionChecksumLength drift_save (int s)"
    have "drift_bytes ! p = 0" if "s * SECTION_SIZE \<le> p" "p < s * SECTION_SIZE + ?len" for p
    proof -
      define q where "q = p - s * SECTION_SIZE"
      have q: "p = s * SECTION_SIZE + q" "q < ?len"
        using that by (simp_all add: q_def)
      have "q < CHECKSUM_DATA_LENGTH_DEFAULT" using q(2) drift_lengths(1) [of s] by simp
      moreover have "q < 0xF10" if "s = 4" using q(2) that drift_lengths(2) by simp
      ultimately show ?thesis using drift_section_nth [OF s, of q] q(1) by auto
    qed
    then have "computeSectionChecksum drift_bytes (s * SECTION_SIZE) ?len = 0"
      by (intro computeSectionChecksum_zero) simp
    then show ?thesis using drift_footer(2) [OF s] by (simp add: section_checksum_ok_def)
  qed
  then show ?thesis
    by (simp add: slot_checksums_ok_per_section_def drift_save_def [THEN arg_cong, of m_bytes]
        drift_logical_id del: upt.simps)
qed

lemma drift_section4_default_sum:
  "computeSectionChecksum drift_bytes (4 * SECTION_SIZE) CHECKSUM_DATA_LENGTH_DEFAULT = 1"
proof -
  have z: "read_u32_le drift_bytes (4 * SECTION_SIZE + k * 4) = 0"
    if "k < CHECKSUM_DATA_LENGTH_DEFAULT div 4" "k \<noteq> 964" for k
  proof (rule read_u32_le_zero, intro allI impI)
    fix j :: nat assume "j < 4"
    with that have "k * 4 + j < CHECKSUM_DATA_LENGTH_DEFAULT" "k * 4 + j \<noteq> 0xF10"
      by presburger+
    then show "drift_bytes ! (4 * SECTION_SIZE + k * 4 + j) = 0"
      using drift_section_nth [of 4 "k * 4 + j"] by (simp add: add.assoc)
  qed
  have w: "read_u32_le drift_bytes (4 * SECTION_SIZE + 964 * 4) = 1"
    using drift_section_nth [of 4 "0xF10"] drift_section_nth [of 4 "0xF11"]
      drift_section_nth [of 4 "0xF12"] drift_section_nth [of 4 "0xF13"]
    by (simp add: read_u32_le_def)
  have "computeSectionChecksum drift_bytes (4 * SECTION_SIZE) CHECKSUM_DATA_LENGTH_DEFAULT =
         (let w = read_u32_le drift_bytes (4 * SECTION_SIZE + 964 * 4)
          in ucast (((w AND 0xFFFF) + drop_bit 16 w) AND 0xFFFF))"
    using z by (intro computeSectionChecksum_single) simp_all
  then show ?thesis unfolding w by simp
qed

lemma drift_slot0_invalid: "\<not> slot_checksums_ok drift_save 0"
proof -
  have "\<not> section_checksum_ok drift_bytes 0 4 CHECKSUM_DATA_LENGTH_DEFAULT"
    using drift_section4_default_sum drift_footer(2) [of 4]
    by (simp add: section_checksum_ok_def)
  then show ?thesis
    by (auto simp: slot_checksums_ok_def drift_save_def simp del: upt.simps)
qed

lemma drift_bytes_length: "length drift_bytes = EXPECTED_FILE_SIZE"
  by (simp add: drift_bytes_def del: upt.simps)

lemma upt_14: "[0..<SECTIONS_PER_SAVE] = [0, 1, 2, 3, 4, 5, 6, 7, 8, 9, 10, 11, 12, 13]"
  by code_simp

lemma read_u16_le_update:
  assumes "i \<noteq> p" "i \<noteq> p + 1"
  shows "read_u16_le (xs[i := v]) p = read_u16_le xs p"
  using assms by (simp add: read_u16_le_def)

subsection \<open>The buffer with a corrupted second slot\<close>

lemma read_u16_le_cong:
  assumes "d ! p = d' ! p" "d ! (p + 1) = d' ! (p + 1)"
  shows "read_u16_le d p = read_u16_le d' p"
  using assms by (simp add: read_u16_le_def)

lemma mixed_bytes_length: "length mixed_bytes = EXPECTED_FILE_SIZE"
  by (simp add: mixed_bytes_def drift_bytes_length)

lemma mixed_slot0_nth:
  assumes "p < SECTION_SIZE * SECTIONS_PER_SAVE"
  shows "mixed_bytes ! p = drift_bytes ! p"
  using assms by (simp add: mixed_bytes_def)

lemma mixed_slot1_nth:
  assumes "q < SECTION_SIZE"
  shows "mixed_bytes ! (SECTION_SIZE * SECTIONS_PER_SAVE + q)
       = (if q = 0 then 1 else if q = SAVE_INDEX_OFFSET then 9 else 0)"
proof -
  have "(s * SECTION_SIZE + q) mod SECTION_SIZE = q" "(s * SECTION_SIZE + q) div SECTION_SIZE = s"
    for s
    using assms by simp_all
  from this [of SECTIONS_PER_SAVE]
  have "(SECTION_SIZE * SECTIONS_PER_SAVE + q) mod SECTION_SIZE = q"
    "(SECTION_SIZE * SECTIONS_PER_SAVE + q) div SECTION_SIZE = SECTIONS_PER_SAVE"
    by simp_all
  then have "drift_bytes ! (SECTION_SIZE * SECTIONS_PER_SAVE + q) = 0"
    using assms by (simp add: drift_bytes_nth)
  then show ?thesis
    using assms by (simp add: mixed_bytes_def drift_bytes_length nth_list_update)
qed

lemma drift_section_checksum_ok:
  assumes "s < SECTIONS_PER_SAVE" "len \<le> CHECKSUM_DATA_LENGTH_DEFAULT" "s = 4 \<longrightarrow> len \<le> 0xF10"
  shows "section_checksum_ok drift_bytes 0 s len"
proof -
  have "drift_bytes ! p = 0" if "s * SECTION_SIZE \<le> p" "p < s * SECTION_SIZE + len" for p
  proof -
    define q where "q = p - s * SECTION_SIZE"
    have q: "p = s * SECTION_SIZE + q" "q < len"
      using that by (simp_all add: q_def)
    have "q < CHECKSUM_DATA_LENGTH_DEFAULT" using q(2) assms(2) by simp
    moreover have "q < 0xF10" if "s = 4" using q(2) that assms(3) by simp
    ultimately show ?thesis using drift_section_nth [OF assms(1), of q] q(1) by auto
  qed
  then have "computeSectionChecksum drift_bytes (s * SECTION_SIZE) len = 0"
    by (intro computeSectionChecksum_zero) simp
  then show ?thesis using drift_footer(2) [OF assms(1)] by (simp add: section_checksum_ok_def)
qed

lemma section_lengths:
  "getSectionChecksumLength sf sectionId \<le> CHECKSUM_DATA_LENGTH_DEFAULT"
  "getSectionChecksumLength sf 4 \<le> 0xF10"
  "4 \<le> getSectionChecksumLength sf 0"
  by (simp_all add: getSectionChecksumLength_def getSection4ChecksumLength_def)

lemma mixed_section_same:
  assumes "s < SECTIONS_PER_SAVE" "q < SECTION_SIZE"
  shows "mixed_bytes ! (s * SECTION_SIZE + q) = drift_bytes ! (s * SECTION_SIZE + q)"
proof -
  have "s * SECTION_SIZE \<le> 13 * SECTION_SIZE" using assms(1) by simp
  with assms(2) have "s * SECTION_SIZE + q < SECTION_SIZE * SECTIONS_PER_SAVE" by simp
  then show ?thesis by (rule mixed_slot0_nth)
qed

lemma mixed_logical_id:
  assumes "s < SECTIONS_PER_SAVE"
  shows "section_logical_id mixed_bytes 0 s = int s"
proof -
  have "read_u16_le mixed_bytes (s * SECTION_SIZE + SECTION_ID_OFFSET)
      = read_u16_le drift_bytes (s * SECTION_SIZE + SECTION_ID_OFFSET)"
  proof (rule read_u16_le_cong)
    show "mixed_bytes ! (s * SECTION_SIZE + SECTION_ID_OFFSET)
        = drift_bytes ! (s * SECTION_SIZE + SECTION_ID_OFFSET)"
      by (rule mixed_section_same [OF assms]) simp
    have e: "s * SECTION_SIZE + SECTION_ID_OFFSET + 1 = s * SECTION_SIZE + 0xFF5" by simp
    show "mixed_bytes ! (s * SECTION_SIZE + SECTION_ID_OFFSET + 1)
        = drift_bytes ! (s * SECTION_SIZE + SECTION_ID_OFFSET + 1)"
      unfolding e by (rule mixed_section_same [OF assms]) simp
  qed
  then show ?thesis
    using drift_logical_id [OF assms] by (simp add: section_logical_id_def)
qed

lemma mixed_section_slot0:
  assumes "s < SECTIONS_PER_SAVE" "len \<le> CHECKSUM_DATA_LENGTH_DEFAULT"
  shows "section_checksum_ok mixed_bytes 0 s len = section_checksum_ok drift_bytes 0 s len"
proof -
  note same = mixed_section_same [OF assms(1)]
  have "computeSectionChecksum mixed_bytes (s * SECTION_SIZE) len
      = computeSectionChecksum drift_bytes (s * SECTION_SIZE) len"
  proof (rule computeSectionChecksum_cong, intro allI impI)
    fix p assume "s * SECTION_SIZE \<le> p \<and> p < s * SECTION_SIZE + len"
    then have p: "s * SECTION_SIZE \<le> p" "p < s * SECTION_SIZE + len" by simp_all
    define q where "q = p - s * SECTION_SIZE"
    have q: "p = s * SECTION_SIZE + q" "q < len" using p by (simp_all add: q_def)
    from q(2) assms(2) have "q < SECTION_SIZE" by simp
    then show "mixed_bytes ! p = drift_bytes ! p" unfolding q(1) by (rule same)
  qed
  moreover have "read_u16_le mixed_bytes (s * SECTION_SIZE + CHECKSUM_OFFSET)
               = read_u16_le drift_bytes (s * SECTION_SIZE + CHECKSUM_OFFSET)"
  proof (rule read_u16_le_cong)
    show "mixed_bytes ! (s * SECTION_SIZE + CHECKSUM_OFFSET)
        = drift_bytes ! (s * SECTION_SIZE + CHECKSUM_OFFSET)"
      by (rule same) simp
    have e: "s * SECTION_SIZE + CHECKSUM_OFFSET + 1 = s * SECTION_SIZE + 0xFF7" by simp
    show "mixed_bytes ! (s * SECTION_SIZE + CHECKSUM_OFFSET + 1)
        = drift_bytes ! (s * SECTION_SIZE + CHECKSUM_OFFSET + 1)"
      unfolding e by (rule same) simp
  qed
  ultimately show ?thesis
    by (simp add: section_checksum_ok_def)
qed

lemma mixed_per_section_slot0: "slot_checksums_ok_per_section (mixed_save g) 0"
proof -
  have "section_checksum_ok mixed_bytes 0 s (getSectionChecksumLength (mixed_save g) (int s))"
    if s: "s < SECTIONS_PER_SAVE" for s
    using mixed_section_slot0 [OF s section_lengths(1)]
      drift_section_checksum_ok [OF s section_lengths(1)] section_lengths(2) [of "mixed_save g"]
    by auto
  then show ?thesis
    by (simp add: slot_checksums_ok_per_section_def mixed_save_def [THEN arg_cong, of m_bytes]
        mixed_logical_id del: upt.simps)
qed

lemma mixed_slot1_section0:
  assumes "4 \<le> len" "len \<le> CHECKSUM_DATA_LENGTH_DEFAULT"
  shows "\<not> section_checksum_ok mixed_bytes 1 0 len"
proof -
  let ?base = "SECTION_SIZE * SECTIONS_PER_SAVE"
  have z: "read_u32_le mixed_bytes (?base + k * 4) = 0" if "k < len div 4" "k \<noteq> 0" for k
  proof (rule read_u32_le_zero, intro allI impI)
    fix j :: nat assume "j < 4"
    with that assms(2) have "k * 4 + j < CHECKSUM_DATA_LENGTH_DEFAULT" "k * 4 + j \<noteq> 0"
      by presburger+
    then show "mixed_bytes ! (?base + k * 4 + j) = 0"
      using mixed_slot1_nth [of "k * 4 + j"] by (simp add: add.assoc)
  qed
  have w: "read_u32_le mixed_bytes (?base + 0 * 4) = 1"
    using mixed_slot1_nth [of 0] mixed_slot1_nth [of 1] mixed_slot1_nth [of 2] mixed_slot1_nth [of 3]
    by (simp add: read_u32_le_def)
  have "0 < len div 4" using assms(1) by simp
  then have "computeSectionChecksum mixed_bytes ?base len =
         (let w = read_u32_le mixed_bytes (?base + 0 * 4)
          in ucast (((w AND 0xFFFF) + drop_bit 16 w) AND 0xFFFF))"
    using z by (intro computeSectionChecksum_single) simp_all
  then have "computeSectionChecksum mixed_bytes ?base len = 1" unfolding w by simp
  moreover have "read_u16_le mixed_bytes (?base + CHECKSUM_OFFSET) = 0"
    using mixed_slot1_nth [of CHECKSUM_OFFSET] mixed_slot1_nth [of "0xFF7"]
    by (simp add: read_u16_le_def)
  ultimately show ?thesis by (simp add: section_checksum_ok_def)
qed

lemma mixed_per_section_slot1: "\<not> slot_checksums_ok_per_section (mixed_save g) 1"
proof -
  have "read_u16_le mixed_bytes (SECTION_SIZE * SECTIONS_PER_SAVE + SECTION_ID_OFFSET) = 0"
    using mixed_slot1_nth [of SECTION_ID_OFFSET] mixed_slot1_nth [of "0xFF5"]
    by (simp add: read_u16_le_def)
  then have id: "section_logical_id mixed_bytes 1 0 = 0"
    by (simp add: section_logical_id_def)
  have bad: "\<not> section_checksum_ok mixed_bytes 1 0 (getSectionChecksumLength (mixed_save g) 0)"
    using section_lengths(3) section_lengths(1) by (rule mixed_slot1_section0)
  have m: "m_bytes (mixed_save g) = mixed_bytes" by (simp add: mixed_save_def)
  show ?thesis
  proof
    assume a: "slot_checksums_ok_per_section (mixed_save g) 1"
    have "0 \<in> set [0..<SECTIONS_PER_SAVE]" by simp
    with a have "section_checksum_ok mixed_bytes 1 0
                   (getSectionChecksumLength (mixed_save g) (section_logical_id mixed_bytes 1 0))"
      unfolding slot_checksums_ok_per_section_def m by blast
    with bad show False unfolding id by contradiction
  qed
qed

lemma mixed_default_slot0: "\<not> slot_checksums_ok (mixed_save g) 0"
proof -
  have "\<not> section_checksum_ok drift_bytes 0 4 CHECKSUM_DATA_LENGTH_DEFAULT"
    using drift_section4_default_sum drift_footer(2) [of 4]
    by (simp add: section_checksum_ok_def)
  then have "\<not> section_checksum_ok mixed_bytes 0 4 CHECKSUM_DATA_LENGTH_DEFAULT"
    using mixed_section_slot0 [of 4 CHECKSUM_DATA_LENGTH_DEFAULT] by simp
  then show ?thesis
    by (auto simp: slot_checksums_ok_def mixed_save_def simp del: upt.simps)
qed

lemma mixed_default_slot1: "\<not> slot_checksums_ok (mixed_save g) 1"
proof -
  have "\<not> section_checksum_ok mixed_bytes 1 0 CHECKSUM_DATA_LENGTH_DEFAULT"
    by (rule mixed_slot1_section0) simp_all
  then show ?thesis
    by (auto simp: slot_checksums_ok_def mixed_save_def simp del: upt.simps)
qed

lemma mixed_counters:
  "slot_save_counter (mixed_save g) 0 = 0" "slot_save_counter (mixed_save g) 1 = 9"
proof -
  have "mixed_bytes ! (0xFFC + j) = 0" if "j < 4" for j
    using mixed_slot0_nth [of "0xFFC + j"] drift_section_nth [of 0 "0xFFC + j"] that by simp
  from this [of 0] this [of 1] this [of 2] this [of 3]
  show "slot_save_counter (mixed_save g) 0 = 0"
    by (simp add: slot_save_counter_def mixed_save_def read_u32_le_def)
  have "mixed_bytes ! (SECTION_SIZE * SECTIONS_PER_SAVE + (0xFFC + j)) = (if j = 0 then 9 else 0)"
    if "j < 4" for j
    using mixed_slot1_nth [of "0xFFC + j"] that by simp
  from this [of 0] this [of 1] this [of 2] this [of 3]
  show "slot_save_counter (mixed_save g) 1 = 9"
    by (simp add: slot_save_counter_def mixed_save_def read_u32_le_def)
qed

subsection \<open>The loaded Emerald save\<close>

lemma emerald_bytes_length: "length emerald_bytes = EXPECTED_FILE_SIZE"
  by (simp add: emerald_bytes_def del: upt.simps)

lemma emerald_bytes_nth:
  "p < EXPECTED_FILE_SIZE \<Longrightarrow> emerald_bytes ! p =
     (if p = GAME_CODE_OFFSET + 4 \<or> p = CHECKSUM_OFFSET \<or> p = SAVE_INDEX_OFFSET then 1
      else if p mod SECTION_SIZE = SECTION_ID_OFFSET
           then of_nat (p div SECTION_SIZE mod SECTIONS_PER_SAVE)
      else 0)"
  unfolding emerald_bytes_def by (simp del: upt.simps)

lemma emerald_section_nth:
  assumes "s < 2 * SECTIONS_PER_SAVE" "q < SECTION_SIZE"
  shows "emerald_bytes ! (s * SECTION_SIZE + q) =
     (if s = 0 \<and> (q = GAME_CODE_OFFSET + 4 \<or> q = CHECKSUM_OFFSET \<or> q = SAVE_INDEX_OFFSET) then 1
      else if q = SECTION_ID_OFFSET then of_nat (s mod SECTIONS_PER_SAVE) else 0)"
proof -
  have "(s * SECTION_SIZE + q) mod SECTION_SIZE = q" "(s * SECTION_SIZE + q) div SECTION_SIZE = s"
    using assms by simp_all
  moreover have "s * SECTION_SIZE + q = 0 * SECTION_SIZE + r \<longleftrightarrow> s = 0 \<and> q = r" if "r < SECTION_SIZE" for r
    using assms that section_offset_split [of q r s 0] by auto
  from this [of "GAME_CODE_OFFSET + 4"] this [of CHECKSUM_OFFSET] this [of SAVE_INDEX_OFFSET]
  have "s * SECTION_SIZE + q = GAME_CODE_OFFSET + 4 \<longleftrightarrow> s = 0 \<and> q = GAME_CODE_OFFSET + 4"
    "s * SECTION_SIZE + q = CHECKSUM_OFFSET \<longleftrightarrow> s = 0 \<and> q = CHECKSUM_OFFSET"
    "s * SECTION_SIZE + q = SAVE_INDEX_OFFSET \<longleftrightarrow> s = 0 \<and> q = SAVE_INDEX_OFFSET"
    by simp_all
  moreover have "s * SECTION_SIZE + q < EXPECTED_FILE_SIZE" using assms by simp
  ultimately show ?thesis by (simp add: emerald_bytes_nth)
qed

lemma emerald_slot_nth:
  assumes "slot < 2" "s < SECTIONS_PER_SAVE" "q < SECTION_SIZE"
  shows "emerald_bytes ! (slot * (SECTION_SIZE * SECTIONS_PER_SAVE) + s * SECTION_SIZE + q) =
     (if slot = 0 \<and> s = 0 \<and> (q = GAME_CODE_OFFSET + 4 \<or> q = CHECKSUM_OFFSET \<or> q = SAVE_INDEX_OFFSET)
      then 1
      else if q = SECTION_ID_OFFSET then of_nat s else 0)"
proof -
  have e: "slot * (SECTION_SIZE * SECTIONS_PER_SAVE) + s * SECTION_SIZE + q
         = (slot * SECTIONS_PER_SAVE + s) * SECTION_SIZE + q"
    by (simp add: algebra_simps)
  have "slot = 0 \<or> slot = 1" using assms(1) by auto
  then have b: "slot * SECTIONS_PER_SAVE + s < 2 * SECTIONS_PER_SAVE"
    "(slot * SECTIONS_PER_SAVE + s) mod SECTIONS_PER_SAVE = s"
    "slot * SECTIONS_PER_SAVE + s = 0 \<longleftrightarrow> slot = 0 \<and> s = 0"
    using assms(2) by auto
  show ?thesis
    unfolding e using emerald_section_nth [OF b(1) assms(3)] b(2,3) by simp
qed

lemma emerald_footer:
  assumes "slot < 2" "s < SECTIONS_PER_SAVE"
  shows "read_u16_le emerald_bytes
           (slot * (SECTION_SIZE * SECTIONS_PER_SAVE) + s * SECTION_SIZE + SECTION_ID_OFFSET) = of_nat s"
    and "read_u16_le emerald_bytes
           (slot * (SECTION_SIZE * SECTIONS_PER_SAVE) + s * SECTION_SIZE + CHECKSUM_OFFSET)
         = (if slot = 0 \<and> s = 0 then 1 else 0)"
proof -
  let ?b = "slot * (SECTION_SIZE * SECTIONS_PER_SAVE) + s * SECTION_SIZE"
  have s8: "(ucast (of_nat s :: u8) :: u16) = of_nat s"
    using assms(2) by (simp add: unsigned_of_nat take_bit_nat_eq_self)
  have e: "?b + SECTION_ID_OFFSET + 1 = ?b + 0xFF5" "?b + CHECKSUM_OFFSET + 1 = ?b + 0xFF7"
    by simp_all
  have a: "emerald_bytes ! (?b + SECTION_ID_OFFSET) = of_nat s"
    using emerald_slot_nth [OF assms, of SECTION_ID_OFFSET] by simp
  have b: "emerald_bytes ! (?b + SECTION_ID_OFFSET + 1) = 0"
    unfolding e using emerald_slot_nth [OF assms, of "0xFF5"] by simp
  have c: "emerald_bytes ! (?b + CHECKSUM_OFFSET) = (if slot = 0 \<and> s = 0 then 1 else 0)"
    using emerald_slot_nth [OF assms, of CHECKSUM_OFFSET] by simp
  have d: "emerald_bytes ! (?b + CHECKSUM_OFFSET + 1) = 0"
    unfolding e using emerald_slot_nth [OF assms, of "0xFF7"] by simp
  show "read_u16_le emerald_bytes (?b + SECTION_ID_OFFSET) = of_nat s"
    unfolding read_u16_le_def a b using s8 by simp
  show "read_u16_le emerald_bytes (?b + CHECKSUM_OFFSET) = (if slot = 0 \<and> s = 0 then 1 else 0)"
    unfolding read_u16_le_def c d by simp
qed

lemma emerald_section_sum:
  assumes "slot < 2" "s < SECTIONS_PER_SAVE"
  shows "computeSectionChecksum emerald_bytes
           (slot * (SECTION_SIZE * SECTIONS_PER_SAVE) + s * SECTION_SIZE) CHECKSUM_DATA_LENGTH_DEFAULT
         = (if slot = 0 \<and> s = 0 then 1 else 0)"
proof (cases "slot = 0 \<and> s = 0")
  case False
  have "emerald_bytes ! p = 0"
    if "slot * (SECTION_SIZE * SECTIONS_PER_SAVE) + s * SECTION_SIZE \<le> p"
       "p < slot * (SECTION_SIZE * SECTIONS_PER_SAVE) + s * SECTION_SIZE + CHECKSUM_DATA_LENGTH_DEFAULT"
    for p
  proof -
    define q where "q = p - (slot * (SECTION_SIZE * SECTIONS_PER_SAVE) + s * SECTION_SIZE)"
    have q: "p = slot * (SECTION_SIZE * SECTIONS_PER_SAVE) + s * SECTION_SIZE + q"
      "q < CHECKSUM_DATA_LENGTH_DEFAULT"
      using that by (simp_all add: q_def)
    show ?thesis unfolding q(1) using emerald_slot_nth [OF assms, of q] q(2) False by auto
  qed
  then have "computeSectionChecksum emerald_bytes
           (slot * (SECTION_SIZE * SECTIONS_PER_SAVE) + s * SECTION_SIZE) CHECKSUM_DATA_LENGTH_DEFAULT = 0"
    by (intro computeSectionChecksum_zero) simp
  with False show ?thesis by simp
next
  case True
  have n: "emerald_bytes ! q = (if q = GAME_CODE_OFFSET + 4 then 1 else 0)"
    if "q < CHECKSUM_DATA_LENGTH_DEFAULT" for q
    using emerald_slot_nth [of 0 0 q] that by auto
  have z: "read_u32_le emerald_bytes (0 + k * 4) = 0"
    if "k < CHECKSUM_DATA_LENGTH_DEFAULT div 4" "k \<noteq> 44" for k
  proof (rule read_u32_le_zero, intro allI impI)
    fix j :: nat assume "j < 4"
    with that have "k * 4 + j < CHECKSUM_DATA_LENGTH_DEFAULT" "k * 4 + j \<noteq> GAME_CODE_OFFSET + 4"
      by presburger+
    then show "emerald_bytes ! (0 + k * 4 + j) = 0"
      using n [of "k * 4 + j"] by simp
  qed
  have w: "read_u32_le emerald_bytes (0 + 44 * 4) = 1"
    using n [of "0xB0"] n [of "0xB1"] n [of "0xB2"] n [of "0xB3"]
    by (simp add: read_u32_le_def)
  have "computeSectionChecksum emerald_bytes 0 CHECKSUM_DATA_LENGTH_DEFAULT =
         (let w = read_u32_le emerald_bytes (0 + 44 * 4)
          in ucast (((w AND 0xFFFF) + drop_bit 16 w) AND 0xFFFF))"
    using z by (intro computeSectionChecksum_single) simp_all
  then have "computeSectionChecksum emerald_bytes 0 CHECKSUM_DATA_LENGTH_DEFAULT = 1"
    unfolding w by simp
  with True show ?thesis by simp
qed

lemma emerald_slots_ok:
  assumes "m_bytes sf = emerald_bytes" "slot < 2"
  shows "slot_checksums_ok sf slot"
  using emerald_section_sum [OF assms(2)] emerald_footer(2) [OF assms(2)]
  by (simp add: slot_checksums_ok_def section_checksum_ok_def assms(1) del: upt.simps)

lemma emerald_counters:
  assumes "m_bytes sf = emerald_bytes"
  shows "slot_save_counter sf 0 = 1" "slot_save_counter sf 1 = 0"
proof -
  have "emerald_bytes ! (0xFFC + j) = (if j = 0 then 1 else 0)" if "j < 4" for j
    using emerald_slot_nth [of 0 0 "0xFFC + j"] that by auto
  from this [of 0] this [of 1] this [of 2] this [of 3]
  show "slot_save_counter sf 0 = 1"
    by (simp add: slot_save_counter_def assms read_u32_le_def)
  have "emerald_bytes ! (1 * (SECTION_SIZE * SECTIONS_PER_SAVE) + 0 * SECTION_SIZE + (0xFFC + j)) = 0"
    if "j < 4" for j
    using emerald_slot_nth [of 1 0 "0xFFC + j"] that by auto
  from this [of 0] this [of 1] this [of 2] this [of 3]
  show "slot_save_counter sf 1 = 0"
    by (simp add: slot_save_counter_def assms read_u32_le_def)
qed

lemma emerald_active_slot:
  assumes "m_bytes sf = emerald_bytes"
  shows "findActiveSaveSlot sf = 0"
proof -
  have "isLoaded sf" using assms emerald_bytes_length by (auto simp: isLoaded_def)
  then show ?thesis
    using emerald_slots_ok [OF assms, of 0] emerald_slots_ok [OF assms, of 1]
      emerald_counters [OF assms]
    by (simp add: findActiveSaveSlot_def Let_def valid_analyzeSaveSlot saveIndex_analyzeSaveSlot)
qed

lemma analyze_section_other_id:
  assumes "read_u16_le d (base + s * SECTION_SIZE + SECTION_ID_OFFSET) \<noteq> 0"
  shows "gameCode (analyze_section d base s info) = gameCode info"
    and "hasSecurityKey (analyze_section d base s info) = hasSecurityKey info"
  using assms by (simp_all add: analyze_section_def Let_def)

lemma fold_analyze_other_ids:
  assumes "\<forall>s \<in> set xs. read_u16_le d (base + s * SECTION_SIZE + SECTION_ID_OFFSET) \<noteq> 0"
  shows "gameCode (fold (analyze_section d base) xs info) = gameCode info
       \<and> hasSecurityKey (fold (analyze_section d base) xs info) = hasSecurityKey info"
  using assms by (induction xs arbitrary: info) (simp_all add: analyze_section_other_id)

lemma emerald_game:
  assumes "m_bytes sf = emerald_bytes"
  shows "gameCode (analyzeSaveSlot sf 0) = 0" "hasSecurityKey (analyzeSaveSlot sf 0)"
proof -
  let ?first = "analyze_section emerald_bytes 0 0
                  \<lparr>blockIndex = 0, saveIndex = 0, valid = True, gameCode = 0, hasSecurityKey = False\<rparr>"
  have u: "[0..<SECTIONS_PER_SAVE] = 0 # [1..<SECTIONS_PER_SAVE]"
    by (simp add: upt_conv_Cons)
  have ids: "\<forall>s \<in> set [1..<SECTIONS_PER_SAVE].
               read_u16_le emerald_bytes (0 + s * SECTION_SIZE + SECTION_ID_OFFSET) \<noteq> 0"
  proof
    fix s assume "s \<in> set [1..<SECTIONS_PER_SAVE]"
    then have s: "1 \<le> s" "s < SECTIONS_PER_SAVE" by simp_all
    then have "unat (of_nat s :: u16) = s"
      by (simp add: unat_of_nat take_bit_nat_eq_self)
    with s(1) have "(of_nat s :: u16) \<noteq> 0" by auto
    then show "read_u16_le emerald_bytes (0 + s * SECTION_SIZE + SECTION_ID_OFFSET) \<noteq> 0"
      using emerald_footer(1) [of 0 s] s(2) by simp
  qed
  have id0: "read_u16_le emerald_bytes SECTION_ID_OFFSET = 0"
    using emerald_footer(1) [of 0 0] by simp
  have n: "emerald_bytes ! q = (if q = GAME_CODE_OFFSET + 4 then 1 else 0)"
    if "q < CHECKSUM_DATA_LENGTH_DEFAULT" for q
    using emerald_slot_nth [of 0 0 q] that by auto
  have code: "read_u32_le emerald_bytes GAME_CODE_OFFSET = 0"
    using n [of "0xAC"] n [of "0xAD"] n [of "0xAE"] n [of "0xAF"] by (simp add: read_u32_le_def)
  have key: "read_u32_le emerald_bytes (GAME_CODE_OFFSET + 4) = 1"
    using n [of "0xB0"] n [of "0xB1"] n [of "0xB2"] n [of "0xB3"] by (simp add: read_u32_le_def)
  have first: "gameCode ?first = 0" "hasSecurityKey ?first"
    using id0 code key by (simp_all add: analyze_section_def Let_def)
  have "analyzeSaveSlot sf 0 = fold (analyze_section emerald_bytes 0) [1..<SECTIONS_PER_SAVE] ?first"
    unfolding analyzeSaveSlot_def assms u by simp
  with fold_analyze_other_ids [OF ids, of ?first] first
  show "gameCode (analyzeSaveSlot sf 0) = 0" "hasSecurityKey (analyzeSaveSlot sf 0)"
    by simp_all
qed

lemma emerald_loaded: "loadFromFile emerald_bytes = Inr emerald_save"
proof -
  let ?sf0 = "\<lparr>m_bytes = emerald_bytes, m_detectedGame = Unknown, m_checksumValid = False,
               m_activeSaveSlot = - 1\<rparr>"
  let ?sf1 = "\<lparr>m_bytes = emerald_bytes, m_detectedGame = Unknown, m_checksumValid = False,
               m_activeSaveSlot = 0\<rparr>"
  let ?sf2 = "\<lparr>m_bytes = emerald_bytes, m_detectedGame = Emerald, m_checksumValid = False,
               m_activeSaveSlot = 0\<rparr>"
  have l: "isLoaded ?sf0" "isLoaded ?sf2"
    using emerald_bytes_length by (auto simp: isLoaded_def)
  have d: "detectGameType ?sf0 = (Emerald, ?sf1)"
    using l(1) emerald_game [of ?sf1]
    by (simp add: detectGameType_def emerald_active_slot Let_def)
  have v: "validateChecksums ?sf2 = (True, ?sf2)"
    using l(2) emerald_slots_ok [of ?sf2 0]
    by (simp add: validateChecksums_def Let_def valid_analyzeSaveSlot)
  show ?thesis
    unfolding loadFromFile_def
    by (simp add: emerald_bytes_length Let_def d v emerald_save_def)
qed

lemma emerald_ids:
  "read_u16_le emerald_bytes 4084 = 0"
  "read_u16_le emerald_bytes 8180 = 1"
  "read_u16_le emerald_bytes 12276 = 2"
  using emerald_footer(1) [of 0 0] emerald_footer(1) [of 0 1] emerald_footer(1) [of 0 2]
  by simp_all


lemma emerald_state:
  "m_bytes emerald_save = emerald_bytes" "m_detectedGame emerald_save = Emerald"
  "m_activeSaveSlot emerald_save = 0" "isLoaded emerald_save"
  "length (m_bytes emerald_save) = EXPECTED_FILE_SIZE"
  using emerald_bytes_length by (auto simp: emerald_save_def isLoaded_def)

lemma enabled_state:
  "m_bytes enabled_save
   = emerald_bytes[2 * SECTION_SIZE + MYSTERY_GIFT_OFFSET_EMERALD := MYSTERY_GIFT_BIT_EMERALD,
                   2 * SECTION_SIZE + CHECKSUM_OFFSET := 0x00,
                   2 * SECTION_SIZE + CHECKSUM_OFFSET + 1 := 0x08]"
  "m_detectedGame enabled_save = Emerald"
  "m_activeSaveSlot enabled_save = 0" "isLoaded enabled_save"
  "length (m_bytes enabled_save) = EXPECTED_FILE_SIZE"
  using emerald_bytes_length by (auto simp: enabled_save_def emerald_save_def isLoaded_def)

lemma emerald_findSection: "findSection emerald_save 2 = 2"
  using emerald_state(4)
  by (simp add: findSection_def slotOffset_def upt_14 emerald_ids emerald_state(1,3)
      del: upt.simps)

lemma enabled_findSection: "findSection enabled_save 2 = 2"
  using enabled_state(4)
  by (simp add: findSection_def slotOffset_def upt_14 emerald_ids read_u16_le_update
      enabled_state(1,3) del: upt.simps)

lemma emerald_offsets:
  "section2Offset emerald_save = 2 * SECTION_SIZE"
  "mysteryGiftFlagOffset emerald_save = MYSTERY_GIFT_OFFSET_EMERALD"
  "mysteryGiftFlagBit emerald_save = MYSTERY_GIFT_BIT_EMERALD"
  by (simp_all add: section2Offset_def emerald_findSection slotOffset_def mysteryGiftFlagOffset_def
      mysteryGiftFlagBit_def emerald_state)

lemma enabled_offsets:
  "section2Offset enabled_save = 2 * SECTION_SIZE"
  "mysteryGiftFlagOffset enabled_save = MYSTERY_GIFT_OFFSET_EMERALD"
  "mysteryGiftFlagBit enabled_save = MYSTERY_GIFT_BIT_EMERALD"
  by (simp_all add: section2Offset_def enabled_findSection slotOffset_def mysteryGiftFlagOffset_def
      mysteryGiftFlagBit_def enabled_state)

lemma emerald_section2_nth:
  assumes "q < SECTION_SIZE"
  shows "emerald_bytes ! (2 * SECTION_SIZE + q) = (if q = SECTION_ID_OFFSET then 2 else 0)"
  using emerald_slot_nth [of 0 2 q] assms by simp

lemma emerald_flagged_sum:
  "computeSectionChecksum
     (emerald_bytes[2 * SECTION_SIZE + MYSTERY_GIFT_OFFSET_EMERALD := MYSTERY_GIFT_BIT_EMERALD])
     (2 * SECTION_SIZE) CHECKSUM_DATA_LENGTH_DEFAULT = 0x0800"
proof -
  let ?d = "emerald_bytes[2 * SECTION_SIZE + MYSTERY_GIFT_OFFSET_EMERALD := MYSTERY_GIFT_BIT_EMERALD]"
  have n: "?d ! (2 * SECTION_SIZE + q)
         = (if q = MYSTERY_GIFT_OFFSET_EMERALD then MYSTERY_GIFT_BIT_EMERALD else 0)"
    if "q < CHECKSUM_DATA_LENGTH_DEFAULT" for q
    using emerald_section2_nth [of q] that emerald_bytes_length by (simp add: nth_list_update)
  have z: "read_u32_le ?d (2 * SECTION_SIZE + k * 4) = 0"
    if "k < CHECKSUM_DATA_LENGTH_DEFAULT div 4" "k \<noteq> 258" for k
  proof (rule read_u32_le_zero, intro allI impI)
    fix j :: nat assume "j < 4"
    with that have "k * 4 + j < CHECKSUM_DATA_LENGTH_DEFAULT" "k * 4 + j \<noteq> MYSTERY_GIFT_OFFSET_EMERALD"
      by presburger+
    then show "?d ! (2 * SECTION_SIZE + k * 4 + j) = 0"
      using n [of "k * 4 + j"] by (simp add: add.assoc)
  qed
  have w: "read_u32_le ?d (2 * SECTION_SIZE + 258 * 4) = 0x08000000"
    using n [of "0x408"] n [of "0x409"] n [of "0x40A"] n [of "0x40B"]
    by (simp add: read_u32_le_def)
  have "computeSectionChecksum ?d (2 * SECTION_SIZE) CHECKSUM_DATA_LENGTH_DEFAULT =
         (let w = read_u32_le ?d (2 * SECTION_SIZE + 258 * 4)
          in ucast (((w AND 0xFFFF) + drop_bit 16 w) AND 0xFFFF))"
    using z by (intro computeSectionChecksum_single) simp_all
  then show ?thesis unfolding w by simp
qed

lemma checksum_0800_bytes:
  "(ucast (0x0800 :: u16) :: u8) = 0x00" "(ucast (drop_bit 8 (0x0800 :: u16)) :: u8) = 0x08"
  "(2048 :: u8) = 0"
  by simp_all

lemma emerald_enable: "enableMysteryGift emerald_save = Inr enabled_save"
proof -
  have "emerald_bytes ! (2 * SECTION_SIZE + MYSTERY_GIFT_OFFSET_EMERALD) = 0"
    using emerald_section2_nth [of MYSTERY_GIFT_OFFSET_EMERALD] by simp
  then show ?thesis
    using emerald_state(4) emerald_flagged_sum
    by (simp add: enableMysteryGift_def emerald_findSection Let_def emerald_offsets
        emerald_state(1,2) getSectionChecksumLength_def writeSectionChecksum_def
        enabled_save_def checksum_0800_bytes(3))
qed


section \<open>Active-slot selection\<close>

text \<open>
  C1, as stated, fails when a slot validates in the sense of the specification, each section
  over its own length: in \<open>mixed_save g\<close>, for every game \<open>g\<close>, every section of slot 0 has a
  stored checksum that matches the checksum over the length \<open>getSectionChecksumLength\<close> gives
  for its logical id, slot 1 has a section that does not, and \<open>findActiveSaveSlot\<close> returns
  slot 1: both slots fail the test over \<open>CHECKSUM_DATA_LENGTH_DEFAULT\<close> bytes that
  \<open>analyzeSaveSlot\<close> applies, and slot 1 has the higher save counter.
\<close>

theorem active_slot_per_section_counterexample:
  "\<forall>g. length (m_bytes (mixed_save g)) = EXPECTED_FILE_SIZE
       \<and> slot_checksums_ok_per_section (mixed_save g) 0
       \<and> \<not> slot_checksums_ok_per_section (mixed_save g) 1
       \<and> findActiveSaveSlot (mixed_save g) = 1"
proof
  fix g
  have "isLoaded (mixed_save g)"
    using mixed_bytes_length by (auto simp: isLoaded_def mixed_save_def)
  then have "findActiveSaveSlot (mixed_save g) = 1"
    using mixed_default_slot0 [of g] mixed_default_slot1 [of g] mixed_counters [of g]
    by (simp add: findActiveSaveSlot_def Let_def valid_analyzeSaveSlot saveIndex_analyzeSaveSlot)
  moreover have "length (m_bytes (mixed_save g)) = EXPECTED_FILE_SIZE"
    by (simp add: mixed_save_def mixed_bytes_length)
  ultimately show "length (m_bytes (mixed_save g)) = EXPECTED_FILE_SIZE
       \<and> slot_checksums_ok_per_section (mixed_save g) 0
       \<and> \<not> slot_checksums_ok_per_section (mixed_save g) 1
       \<and> findActiveSaveSlot (mixed_save g) = 1"
    using mixed_per_section_slot0 mixed_per_section_slot1 by simp
qed

text \<open>
  C1, amended. For a loaded buffer of 131072 bytes, with a slot counted as valid when each of
  its 14 stored section checksums equals the checksum over \<open>CHECKSUM_DATA_LENGTH_DEFAULT\<close>
  bytes (the test of \<open>analyzeSaveSlot\<close>): \<open>findActiveSaveSlot\<close> returns the valid slot when
  the other slot has a mismatch, whatever the save counters are; when both slots are valid or
  both have a mismatch it returns the slot with the strictly higher save counter.
\<close>

theorem active_slot_selection:
  assumes "length (m_bytes sf) = EXPECTED_FILE_SIZE"
  shows "(slot_checksums_ok sf 0 \<and> \<not> slot_checksums_ok sf 1 \<longrightarrow> findActiveSaveSlot sf = 0)
       \<and> (\<not> slot_checksums_ok sf 0 \<and> slot_checksums_ok sf 1 \<longrightarrow> findActiveSaveSlot sf = 1)
       \<and> ((slot_checksums_ok sf 0 \<longleftrightarrow> slot_checksums_ok sf 1)
            \<and> slot_save_counter sf 0 > slot_save_counter sf 1 \<longrightarrow> findActiveSaveSlot sf = 0)
       \<and> ((slot_checksums_ok sf 0 \<longleftrightarrow> slot_checksums_ok sf 1)
            \<and> slot_save_counter sf 1 > slot_save_counter sf 0 \<longrightarrow> findActiveSaveSlot sf = 1)"
proof -
  from assms have "isLoaded sf" by (auto simp: isLoaded_def)
  then show ?thesis
    by (auto simp: findActiveSaveSlot_def Let_def valid_analyzeSaveSlot saveIndex_analyzeSaveSlot)
qed

theorem active_slot_selection_witness:
  "length (m_bytes witness_save) = EXPECTED_FILE_SIZE
   \<and> \<not> slot_checksums_ok witness_save 0 \<and> slot_checksums_ok witness_save 1
   \<and> slot_save_counter witness_save 0 > slot_save_counter witness_save 1
   \<and> findActiveSaveSlot witness_save = 1
   \<and> length (m_bytes emerald_save) = EXPECTED_FILE_SIZE
   \<and> slot_checksums_ok emerald_save 0 \<and> slot_checksums_ok emerald_save 1
   \<and> slot_save_counter emerald_save 0 > slot_save_counter emerald_save 1
   \<and> findActiveSaveSlot emerald_save = 0"
proof -
  have len: "length (m_bytes witness_save) = EXPECTED_FILE_SIZE"
    by (simp add: witness_save_def witness_bytes_length)
  have first: "findActiveSaveSlot witness_save = 1"
    using active_slot_selection [OF len] witness_slot0_bad witness_slot1_ok by simp
  have ok: "slot_checksums_ok emerald_save 0" "slot_checksums_ok emerald_save 1"
    using emerald_slots_ok [OF emerald_state(1)] by simp_all
  have counters: "slot_save_counter emerald_save 0 > slot_save_counter emerald_save 1"
    using emerald_counters [OF emerald_state(1)] by simp
  have second: "findActiveSaveSlot emerald_save = 0"
    using active_slot_selection [OF emerald_state(5)] ok counters by simp
  show ?thesis
    using len first witness_slot0_bad witness_slot1_ok witness_counters
      emerald_state(5) ok counters second
    by simp
qed

section \<open>Checksum lengths used by slot validation\<close>

text \<open>
  C2, as stated, fails: on \<open>drift_save\<close> every section of slot 0 has a stored checksum that
  matches the checksum over the length \<open>getSectionChecksumLength\<close> gives for its logical
  id, and \<open>analyzeSaveSlot\<close> reports the slot as not valid.
\<close>

theorem slot_validity_per_section_counterexample:
  "slot_checksums_ok_per_section drift_save 0 \<and> \<not> valid (analyzeSaveSlot drift_save 0)"
  using drift_per_section_ok drift_slot0_invalid by (simp add: valid_analyzeSaveSlot)

text \<open>
  C2, amended. \<open>analyzeSaveSlot\<close> checks each of the 14 sections over
  \<open>CHECKSUM_DATA_LENGTH_DEFAULT\<close> bytes, whatever the section's logical id and the game
  variant are: a slot is valid exactly when every section's stored checksum equals the
  word-sum-and-fold checksum of its first \<open>0xF80\<close> bytes, and the result does not depend
  on the detected game.
\<close>

theorem slot_validity_default_length:
  "(valid (analyzeSaveSlot sf slot) \<longleftrightarrow>
      (\<forall>section \<in> set [0..<SECTIONS_PER_SAVE].
         computeSectionChecksum (m_bytes sf)
           (slot * (SECTION_SIZE * SECTIONS_PER_SAVE) + section * SECTION_SIZE)
           CHECKSUM_DATA_LENGTH_DEFAULT
         = read_u16_le (m_bytes sf)
             (slot * (SECTION_SIZE * SECTIONS_PER_SAVE) + section * SECTION_SIZE + CHECKSUM_OFFSET)))
   \<and> analyzeSaveSlot (sf\<lparr>m_detectedGame := g\<rparr>) slot = analyzeSaveSlot sf slot"
proof
  show "valid (analyzeSaveSlot sf slot) \<longleftrightarrow>
      (\<forall>section \<in> set [0..<SECTIONS_PER_SAVE].
         computeSectionChecksum (m_bytes sf)
           (slot * (SECTION_SIZE * SECTIONS_PER_SAVE) + section * SECTION_SIZE)
           CHECKSUM_DATA_LENGTH_DEFAULT
         = read_u16_le (m_bytes sf)
             (slot * (SECTION_SIZE * SECTIONS_PER_SAVE) + section * SECTION_SIZE + CHECKSUM_OFFSET))"
    by (simp add: valid_analyzeSaveSlot slot_checksums_ok_def section_checksum_ok_def
        del: upt.simps set_upt)
  show "analyzeSaveSlot (sf\<lparr>m_detectedGame := g\<rparr>) slot = analyzeSaveSlot sf slot"
    by (simp add: analyzeSaveSlot_def del: upt.simps)
qed

theorem slot_validity_default_length_witness:
  "valid (analyzeSaveSlot witness_save 1) \<and> \<not> valid (analyzeSaveSlot drift_save 0)"
  using slot_validity_default_length [of witness_save 1 Unknown]
    slot_validity_default_length [of drift_save 0 Unknown]
    witness_slot1_ok drift_slot0_invalid
  by (simp add: slot_checksums_ok_def section_checksum_ok_def del: upt.simps set_upt)

section \<open>CRC16\<close>

lemma low_byte_index:
  "unat (ucast ((w :: u16) AND 0xFF) :: u8) = unat (w AND 0xFF)"
proof -
  have "unat (w AND 0xFF) < 256"
    using word_and_le1 [of w "0xFF"] by (simp add: word_le_nat_alt)
  then show ?thesis
    by (simp add: unsigned_ucast_eq take_bit_nat_eq_self)
qed

lemma crc16_loop_body:
  "(ucast (tbl ! (unat (ucast ((crc XOR ucast b) AND 0xFF) :: u8) * 2))
      OR push_bit 8 (ucast (tbl ! (unat (ucast ((crc XOR ucast b) AND 0xFF) :: u8) * 2 + 1))))
     XOR drop_bit 8 crc
   = crc16_step tbl crc b"
  unfolding crc16_step_def read_u16_le_def low_byte_index ..

lemma crc16_loop_foldl:
  "crc16_loop bytes tbl i crc = foldl (crc16_step tbl) crc (drop i bytes)"
proof (induction bytes tbl i crc rule: crc16_loop.induct)
  case (1 bytes tbl i crc)
  show ?case
  proof (cases "i < length bytes")
    case True
    then have d: "drop i bytes = bytes ! i # drop (i + 1) bytes"
      by (simp add: Cons_nth_drop_Suc)
    have "crc16_loop bytes tbl i crc = crc16_loop bytes tbl (i + 1) (crc16_step tbl crc (bytes ! i))"
      using True by (subst crc16_loop.simps) (simp only: Let_def crc16_loop_body if_True)
    also have "\<dots> = foldl (crc16_step tbl) (crc16_step tbl crc (bytes ! i)) (drop (i + 1) bytes)"
      using "1.IH" [OF True refl refl] by (simp only: crc16_loop_body)
    finally show ?thesis by (simp only: d foldl_Cons)
  next
    case False
    then show ?thesis by (subst crc16_loop.simps) simp
  qed
qed

text \<open>
  C5. For a table of 512 bytes, \<open>calculateCRC16\<close> is the specification's CRC: the
  complement of the value obtained from the seed \<open>0x1121\<close> by one \<open>crc16_step\<close> per input
  byte (the little-endian table entry at index \<open>(crc XOR byte) AND 0xFF\<close>, XOR \<open>crc >> 8\<close>).
  On the empty buffer the result is \<open>~0x1121 & 0xFFFF = 0xEEDE\<close>, whatever the table holds.
\<close>

theorem calculateCRC16_spec:
  assumes "length tbl = 512"
  shows "calculateCRC16 data tbl = NOT (foldl (crc16_step tbl) 0x1121 data)
       \<and> calculateCRC16 data tbl = crc16_spec data tbl
       \<and> calculateCRC16 [] tbl = 0xEEDE
       \<and> crc16_step tbl crc byte =
           (ucast (tbl ! (unat ((crc XOR ucast byte) AND 0xFF) * 2))
            OR push_bit 8 (ucast (tbl ! (unat ((crc XOR ucast byte) AND 0xFF) * 2 + 1))))
           XOR drop_bit 8 crc"
proof -
  have m: "w AND 0xFFFF = w" for w :: u16
  proof -
    have e: "(0xFFFF :: u16) = - 1" by simp
    show ?thesis unfolding e by simp
  qed
  show ?thesis
    using assms
    by (simp add: calculateCRC16_def crc16_loop_foldl crc16_spec_def crc16_step_def
        read_u16_le_def m)
qed

theorem calculateCRC16_spec_witness:
  "length (replicate 512 (1 :: u8)) = 512
   \<and> calculateCRC16 [0x00] (replicate 512 1) = 0xFEEF
   \<and> calculateCRC16 [] (replicate 512 1) = 0xEEDE"
proof -
  have len: "length (replicate 512 (1 :: u8)) = 512" by simp
  have "unat (0x21 :: u16) * 2 < 512" "unat (0x21 :: u16) * 2 + 1 < 512" by simp_all
  then show ?thesis
    using calculateCRC16_spec [OF len, of "[0x00]"]
    by (simp add: crc16_step_def read_u16_le_def)
qed

section \<open>Input shapes of parseWonderCard\<close>

text \<open>
  C9. A 336-byte input is parsed from byte 4 on and gives the record of its last 332 bytes
  parsed directly; an input shorter than 332 bytes gives a record whose event id, icon,
  count, type/color/resend byte and stamp maximum are zero, which satisfies \<open>isEmpty\<close>.
\<close>

theorem parseWonderCard_input_shapes:
  "(length payload = WONDERCARD_TOTAL_SIZE \<longrightarrow>
      length (drop WONDERCARD_HEADER_SIZE payload) = WONDERCARD_PAYLOAD_SIZE
      \<and> parseWonderCard payload = parseWonderCard (drop WONDERCARD_HEADER_SIZE payload))
   \<and> (length payload < WONDERCARD_PAYLOAD_SIZE \<longrightarrow>
      eventId (parseWonderCard payload) = 0 \<and> icon (parseWonderCard payload) = 0
      \<and> count (parseWonderCard payload) = 0 \<and> typeColorResend (parseWonderCard payload) = 0
      \<and> stampMax (parseWonderCard payload) = 0 \<and> isEmpty (parseWonderCard payload))"
  by (simp add: parseWonderCard_def isEmpty_def Let_def)

theorem parseWonderCard_input_shapes_witness:
  "length (replicate 4 0xFF @ 0x34 # 0x12 # replicate 330 (0 :: u8)) = WONDERCARD_TOTAL_SIZE
   \<and> parseWonderCard (replicate 4 0xFF @ 0x34 # 0x12 # replicate 330 0)
       = parseWonderCard (0x34 # 0x12 # replicate 330 0)
   \<and> eventId (parseWonderCard (replicate 4 0xFF @ 0x34 # 0x12 # replicate 330 0)) = 0x1234
   \<and> length [0x34, 0x12 :: u8] < WONDERCARD_PAYLOAD_SIZE
   \<and> isEmpty (parseWonderCard [0x34, 0x12])"
proof -
  have "eventId (parseWonderCard (0x34 # 0x12 # replicate 330 0)) = 0x1234"
    by (simp add: parseWonderCard_def read_u16_le_def)
  then show ?thesis
    using parseWonderCard_input_shapes [of "replicate 4 0xFF @ 0x34 # 0x12 # replicate 330 0"]
      parseWonderCard_input_shapes [of "[0x34, 0x12]"]
    by simp
qed

lemma rom_size32_le: "unat (rom_size32 rom) \<le> length rom"
  by (simp add: rom_size32_def unat_of_nat)

lemma readByte_in_range: "\<not> offset \<ge> rom_size32 rom \<Longrightarrow> unat offset < length rom"
proof -
  assume "\<not> offset \<ge> rom_size32 rom"
  then have "unat offset < unat (rom_size32 rom)" by (simp add: not_le word_less_nat_alt)
  then show ?thesis using rom_size32_le [of rom] by simp
qed

lemma readByte_past_end: "offset \<ge> rom_size32 rom \<Longrightarrow> readByte rom offset = 0"
  by (simp add: readByte_def)

lemma readHalfWord_past_end:
  assumes "length rom < 2 ^ 32" "unat offset + 1 \<ge> length rom" "offset \<noteq> - 1"
  shows "readHalfWord rom offset = Some 0"
proof -
  have "1 + offset \<noteq> 0"
    using assms(3) by (simp add: eq_neg_iff_add_eq_0 add.commute)
  then have "unat (offset + 1) = unat offset + 1"
    by (simp add: unatSuc add.commute)
  moreover have "unat (rom_size32 rom) = length rom"
    using assms(1) by (simp add: rom_size32_def unat_of_nat)
  ultimately have "offset + 1 \<ge> rom_size32 rom"
    using assms(2) by (simp add: word_le_nat_alt)
  then show ?thesis by (simp add: readHalfWord_def)
qed

text \<open>
  C8 fails on the code where the guard's addition wraps around: at offset \<open>0xFFFFFFFF\<close>
  the guard of \<open>readHalfWord\<close> compares \<open>0\<close> with the buffer size, passes for every
  non-empty buffer, and the buffer is then indexed at \<open>0xFFFFFFFF\<close>; \<open>readWord\<close> does the
  same from \<open>0xFFFFFFFD\<close> on. Here the buffer is a ROM of 1 MiB.
\<close>

theorem readHalfWord_guard_wraps:
  "readHalfWord (replicate 0x100000 0x00) 0xFFFFFFFF = None
   \<and> readWord (replicate 0x100000 0x00) 0xFFFFFFFD = None
   \<and> readByte (replicate 0x100000 0x00) 0xFFFFFFFF = 0"
  by (simp add: readHalfWord_def readWord_def readByte_def rom_size32_def byte_at_def)

section \<open>Text encoding and decoding\<close>

lemma GEN3_TO_UNICODE_length: "length GEN3_TO_UNICODE = 256"
  by (simp add: GEN3_TO_UNICODE_def)

lemma scan_table_Some:
  "scan_table cs i u = Some j \<Longrightarrow> i \<le> j \<and> j < i + length cs \<and> cs ! (j - i) = u"
proof (induction cs arbitrary: i)
  case Nil
  then show ?case by simp
next
  case (Cons c cs)
  show ?case
  proof (cases "c = u")
    case True
    with Cons.prems show ?thesis by simp
  next
    case False
    with Cons.prems have "scan_table cs (i + 1) u = Some j" by simp
    from Cons.IH [OF this] show ?thesis by (auto simp: nth_Cons')
  qed
qed

lemma scan_table_None: "scan_table cs i u = None \<Longrightarrow> u \<notin> set cs"
  by (induction cs arbitrary: i) (auto split: if_splits)

lemma encode_loop_eq:
  assumes "length dest = n" "w \<le> n"
  shows "encode_loop str n w dest =
         take w dest @ map unicodeToGen3 (take (n - w) str)
           @ drop (w + min (length str) (n - w)) dest"
  using assms
proof (induction str arbitrary: w dest)
  case Nil
  then show ?case by simp
next
  case (Cons ch rest)
  show ?case
  proof (cases "w < n")
    case True
    let ?d = "dest[w := unicodeToGen3 ch]"
    have len: "length ?d = n" using Cons.prems by simp
    have w1: "w + 1 \<le> n" using True by simp
    have t: "take (w + 1) ?d = take w dest @ [unicodeToGen3 ch]"
      using True Cons.prems by (simp add: take_Suc_conv_app_nth)
    have d: "drop (w + 1 + min (length rest) (n - (w + 1))) ?d
           = drop (w + min (length (ch # rest)) (n - w)) dest"
      using True by (simp add: min_def)
    have tk: "take (n - w) (ch # rest) = ch # take (n - (w + 1)) rest"
      using True by (simp add: take_Cons')
    have "encode_loop (ch # rest) n w dest = encode_loop rest n (w + 1) ?d"
      using True by simp
    also have "\<dots> = take (w + 1) ?d @ map unicodeToGen3 (take (n - (w + 1)) rest)
                      @ drop (w + 1 + min (length rest) (n - (w + 1))) ?d"
      by (rule Cons.IH [OF len w1])
    finally show ?thesis unfolding t d tk by simp
  next
    case False
    with Cons.prems show ?thesis by simp
  qed
qed

lemma encodeText_eq:
  "encodeText str n = map unicodeToGen3 (take n str) @ replicate (n - length str) 0x00"
  by (simp add: encodeText_def encode_loop_eq min_def)

lemma length_encodeText: "length (encodeText str n) = n"
  by (simp add: encodeText_eq)

lemma table_digits: "\<forall>k \<in> set [0..<10]. GEN3_TO_UNICODE ! (0xA1 + k) = of_nat (0x30 + k)"
  by code_simp

lemma table_upper: "\<forall>k \<in> set [0..<26]. GEN3_TO_UNICODE ! (0xBB + k) = of_nat (0x41 + k)"
  by code_simp

lemma table_lower: "\<forall>k \<in> set [0..<26]. GEN3_TO_UNICODE ! (0xD5 + k) = of_nat (0x61 + k)"
  by code_simp

lemma table_punctuation:
  "GEN3_TO_UNICODE ! 0xAB = 0x21" "GEN3_TO_UNICODE ! 0xAC = 0x3F" "GEN3_TO_UNICODE ! 0xAD = 0x2E"
  "GEN3_TO_UNICODE ! 0xAE = 0x2D" "GEN3_TO_UNICODE ! 0xB8 = 0x2C" "GEN3_TO_UNICODE ! 0xBA = 0x2F"
  "GEN3_TO_UNICODE ! 0xF0 = 0x3A" "GEN3_TO_UNICODE ! 0x00 = 0x20" "GEN3_TO_UNICODE ! 0xFF = 0x00"
  by code_simp+

lemma range_encode:
  fixes c lo :: u16 and base :: u8
  assumes "lo \<le> c" "unat base + (unat c - unat lo) < 256"
  shows "unat (base + ucast (c - lo)) = unat base + (unat c - unat lo)"
proof -
  have "unat (c - lo) = unat c - unat lo"
    using assms(1) by (simp add: unat_sub)
  moreover have "unat (ucast (c - lo) :: u8) = unat (c - lo)"
    using assms(2) calculation by (simp add: unsigned_ucast_eq take_bit_nat_eq_self)
  ultimately show ?thesis
    using assms(2) by (simp add: unat_word_ariths)
qed

lemma range_decodes:
  fixes c lo :: u16 and base :: u8 and n :: nat
  assumes tab: "\<forall>k \<in> set [0..<n]. GEN3_TO_UNICODE ! (unat base + k) = of_nat (unat lo + k)"
    and lo: "lo \<le> c" and hi: "unat c < unat lo + n" and fit: "unat base + n \<le> 256"
  shows "GEN3_TO_UNICODE ! unat (base + ucast (c - lo)) = c"
proof -
  let ?k = "unat c - unat lo"
  have le: "unat lo \<le> unat c" using lo by (simp add: word_le_nat_alt)
  have k: "?k < n" using le hi by simp
  have "unat (base + ucast (c - lo)) = unat base + ?k"
    using k fit by (intro range_encode [OF lo]) simp
  moreover have "GEN3_TO_UNICODE ! (unat base + ?k) = of_nat (unat lo + ?k)"
    using tab k by simp
  moreover have "of_nat (unat lo + ?k) = c"
    using le by simp
  ultimately show ?thesis by simp
qed

lemma unicodeToGen3_decodes:
  assumes "c \<in> set GEN3_TO_UNICODE"
  shows "GEN3_TO_UNICODE ! unat (unicodeToGen3 c) = c"
proof -
  consider (digit) "0x30 \<le> c \<and> c \<le> 0x39"
    | (upper) "\<not> (0x30 \<le> c \<and> c \<le> 0x39)" "0x41 \<le> c \<and> c \<le> 0x5A"
    | (lower) "\<not> (0x30 \<le> c \<and> c \<le> 0x39)" "\<not> (0x41 \<le> c \<and> c \<le> 0x5A)" "0x61 \<le> c \<and> c \<le> 0x7A"
    | (other) "\<not> (0x30 \<le> c \<and> c \<le> 0x39)" "\<not> (0x41 \<le> c \<and> c \<le> 0x5A)"
              "\<not> (0x61 \<le> c \<and> c \<le> 0x7A)"
    by blast
  then show ?thesis
  proof cases
    case digit
    then have "GEN3_TO_UNICODE ! unat (0xA1 + ucast (c - 0x30) :: u8) = c"
      using table_digits by (intro range_decodes [where n = 10]) (simp_all add: word_le_nat_alt)
    with digit show ?thesis by (simp add: unicodeToGen3_def)
  next
    case upper
    then have "GEN3_TO_UNICODE ! unat (0xBB + ucast (c - 0x41) :: u8) = c"
      using table_upper by (intro range_decodes [where n = 26]) (simp_all add: word_le_nat_alt)
    with upper show ?thesis by (auto simp: unicodeToGen3_def)
  next
    case lower
    then have "GEN3_TO_UNICODE ! unat (0xD5 + ucast (c - 0x61) :: u8) = c"
      using table_lower by (intro range_decodes [where n = 26]) (simp_all add: word_le_nat_alt)
    with lower show ?thesis by (auto simp: unicodeToGen3_def)
  next
    case other
    show ?thesis
    proof (cases "c \<in> {0x21, 0x3F, 0x2E, 0x2D, 0x2C, 0x2F, 0x3A, 0x20}")
      case True
      then show ?thesis
        by (auto simp: unicodeToGen3_def table_punctuation)
    next
      case False
      obtain j where j: "scan_table GEN3_TO_UNICODE 0 c = Some j"
        using assms scan_table_None [of GEN3_TO_UNICODE 0 c] by (cases "scan_table GEN3_TO_UNICODE 0 c") auto
      from scan_table_Some [OF j] have "j < 256" "GEN3_TO_UNICODE ! j = c"
        by (simp_all add: GEN3_TO_UNICODE_length)
      moreover from \<open>j < 256\<close> have "unat (of_nat j :: u8) = j"
        by (simp add: unat_of_nat take_bit_nat_eq_self)
      ultimately show ?thesis
        using other False j by (auto simp: unicodeToGen3_def)
    qed
  qed
qed

lemma table_entry_in_table: "GEN3_TO_UNICODE ! unat (b :: u8) \<in> set GEN3_TO_UNICODE"
proof -
  have "unat b < 256" using unsigned_less [of b] by simp
  then show ?thesis by (simp add: GEN3_TO_UNICODE_length)
qed

lemma has_table_entry_not_terminator: "has_table_entry b \<Longrightarrow> b \<noteq> 0xFF"
  using table_punctuation(9) by (auto simp: has_table_entry_def)

lemma decode_byte_entry:
  "has_table_entry b \<Longrightarrow> decode_byte b r = r @ [GEN3_TO_UNICODE ! unat b]"
  by (simp add: decode_byte_def has_table_entry_def)

lemma unicodeToGen3_entry:
  "has_table_entry (unicodeToGen3 (GEN3_TO_UNICODE ! unat b)) = has_table_entry b"
  by (simp add: has_table_entry_def unicodeToGen3_decodes table_entry_in_table)

lemma unicodeToGen3_space: "unicodeToGen3 0x20 = 0x00"
  by (simp add: unicodeToGen3_def)

lemma decode_loop_padding: "decode_loop (replicate k 0x00) acc = acc @ replicate k 0x20"
proof (induction k arbitrary: acc)
  case 0
  then show ?case by simp
next
  case (Suc k)
  have "decode_byte 0x00 acc = acc @ [0x20]"
    using table_punctuation(8) by (simp add: decode_byte_def)
  then show ?case
    using Suc.IH [of "acc @ [0x20]"] by (simp add: replicate_append_same)
qed

lemma decodeText_single:
  assumes "has_table_entry b"
  shows "decodeText [b] 1 = [GEN3_TO_UNICODE ! unat b]"
  using assms has_table_entry_not_terminator [OF assms]
  by (simp add: decodeText_def decode_byte_entry)

lemma round_trip_char_padded:
  assumes "has_table_entry b" "c = GEN3_TO_UNICODE ! unat b"
  shows "text_round_trip (Suc m) (c # replicate k 0x20) = c # replicate m 0x20"
proof -
  let ?e = "unicodeToGen3 c"
  have e: "has_table_entry ?e" "GEN3_TO_UNICODE ! unat ?e = c"
    using assms by (simp_all add: unicodeToGen3_entry unicodeToGen3_decodes table_entry_in_table)
  have "encodeText (c # replicate k 0x20) (Suc m)
        = ?e # map unicodeToGen3 (take m (replicate k 0x20)) @ replicate (m - k) 0x00"
    by (simp add: encodeText_eq)
  also have "map unicodeToGen3 (take m (replicate k 0x20)) = replicate (min m k) 0x00"
    by (simp add: unicodeToGen3_space min.commute)
  also have "replicate (min m k) 0x00 @ replicate (m - k) (0x00 :: u8) = replicate m 0x00"
    by (simp add: replicate_add [symmetric] min_def)
  finally have enc: "encodeText (c # replicate k 0x20) (Suc m) = ?e # replicate m 0x00" .
  have "decodeText (?e # replicate m 0x00) (Suc m) = c # replicate m 0x20"
    using e has_table_entry_not_terminator [OF e(1)]
    by (simp add: decodeText_def decode_byte_entry decode_loop_padding)
  with enc show ?thesis by (simp add: text_round_trip_def)
qed

text \<open>
  C7. For a byte \<open>b\<close> with a text-table entry and a field of any width \<open>n\<close>, the string
  obtained by decoding \<open>b\<close>, encoding and decoding again is a fixed point of the round
  trip: a second round trip gives the same string.
\<close>

theorem decode_stable_after_round_trip:
  assumes "has_table_entry b"
  shows "text_round_trip n (text_round_trip n (decodeText [b] 1))
       = text_round_trip n (decodeText [b] 1)"
proof (cases n)
  case 0
  then show ?thesis by (simp add: text_round_trip_def encodeText_eq decodeText_def)
next
  case (Suc m)
  have "text_round_trip (Suc m) [GEN3_TO_UNICODE ! unat b]
        = GEN3_TO_UNICODE ! unat b # replicate m 0x20"
    using round_trip_char_padded [OF assms refl, of m 0] by simp
  then show ?thesis
    unfolding decodeText_single [OF assms] Suc
    using round_trip_char_padded [OF assms refl, of m m] by simp
qed

theorem decode_stable_after_round_trip_witness:
  "has_table_entry 0x43
   \<and> decodeText [0x43] 1 = [0x50]
   \<and> encodeText [0x50] 3 = [0xCA, 0x00, 0x00]
   \<and> text_round_trip 3 (decodeText [0x43] 1) = [0x50, 0x20, 0x20]
   \<and> text_round_trip 3 (text_round_trip 3 (decodeText [0x43] 1)) = [0x50, 0x20, 0x20]"
proof -
  have h: "has_table_entry 0x43" unfolding has_table_entry_def by code_simp
  have d: "decodeText [0x43] 1 = [0x50]" by code_simp
  have e: "encodeText [0x50] 3 = [0xCA, 0x00, 0x00]" by code_simp
  have r: "text_round_trip 3 [0x50] = [0x50, 0x20, 0x20]" unfolding text_round_trip_def by code_simp
  show ?thesis
    using decode_stable_after_round_trip [OF h, of 3] h d e r by simp
qed

section \<open>Buffers\<close>

lemma length_write_bytes: "length (write_bytes buf off xs) = length buf"
  by (induction xs arbitrary: buf off) simp_all

lemma write_bytes_eq:
  "off + length xs \<le> length buf \<Longrightarrow>
   write_bytes buf off xs = take off buf @ xs @ drop (off + length xs) buf"
proof (induction xs arbitrary: buf off)
  case Nil
  then show ?case by simp
next
  case (Cons x xs)
  have "write_bytes (buf[off := x]) (off + 1) xs
      = take (off + 1) (buf[off := x]) @ xs @ drop (off + 1 + length xs) (buf[off := x])"
    using Cons.prems by (intro Cons.IH) simp
  moreover have "take (off + 1) (buf[off := x]) = take off buf @ [x]"
    using Cons.prems by (simp add: take_Suc_conv_app_nth)
  ultimately show ?case by simp
qed

lemma nth_write_bytes:
  assumes "off + length xs \<le> length buf" "i < length buf"
  shows "write_bytes buf off xs ! i =
         (if off \<le> i \<and> i < off + length xs then xs ! (i - off) else buf ! i)"
  using assms by (auto simp: write_bytes_eq nth_append)

section \<open>Round trip of a text field\<close>

lemma representable_iff:
  "representable b \<longleftrightarrow>
     has_table_entry b \<and> unicodeToGen3 (GEN3_TO_UNICODE ! unat b) = b"
proof
  assume "representable b"
  then obtain c where c: "c \<in> set GEN3_TO_UNICODE" "c \<noteq> 0" "b = unicodeToGen3 c"
    by (auto simp: representable_def)
  then have "GEN3_TO_UNICODE ! unat b = c" by (simp add: unicodeToGen3_decodes)
  with c show "has_table_entry b \<and> unicodeToGen3 (GEN3_TO_UNICODE ! unat b) = b"
    by (simp add: has_table_entry_def)
next
  assume r: "has_table_entry b \<and> unicodeToGen3 (GEN3_TO_UNICODE ! unat b) = b"
  let ?c = "GEN3_TO_UNICODE ! unat b"
  have "?c \<in> set (filter (\<lambda>c. c \<noteq> 0) GEN3_TO_UNICODE)"
    using r table_entry_in_table [of b] by (simp add: has_table_entry_def)
  then have "unicodeToGen3 ?c \<in> set (map unicodeToGen3 (filter (\<lambda>c. c \<noteq> 0) GEN3_TO_UNICODE))"
    by (simp del: set_filter)
  with r show "representable b" by (simp add: representable_def)
qed

lemma decode_loop_representable:
  "list_all representable xs \<Longrightarrow>
   decode_loop xs acc = acc @ map (\<lambda>b. GEN3_TO_UNICODE ! unat b) xs"
proof (induction xs arbitrary: acc)
  case Nil
  then show ?case by simp
next
  case (Cons b xs)
  then have b: "has_table_entry b" by (simp add: representable_iff)
  show ?case
    using Cons has_table_entry_not_terminator [OF b] by (simp add: decode_byte_entry [OF b])
qed

lemma text_field_round_trip:
  assumes "list_all representable (take n field)" "n \<le> length field"
  shows "encodeText (decodeText field n) n = take n field"
proof -
  have "map unicodeToGen3 (map (\<lambda>b. GEN3_TO_UNICODE ! unat b) xs) = xs"
    if "list_all representable xs" for xs
    using that by (induction xs) (simp_all add: representable_iff)
  from this [OF assms(1)] show ?thesis
    using assms by (simp add: decodeText_def decode_loop_representable encodeText_eq)
qed

section \<open>Little-endian fields\<close>

lemma le16_bytes:
  fixes a b :: u8
  shows "(ucast (ucast a OR push_bit 8 (ucast b) :: u16) :: u8) = a"
    and "(ucast (drop_bit 8 (ucast a OR push_bit 8 (ucast b) :: u16)) :: u8) = b"
  by (rule bit_word_eqI; auto simp: bit_simps dest: bit_imp_le_length)+

lemma le32_bytes:
  fixes a b c d :: u8
  defines "w \<equiv> (ucast a OR push_bit 8 (ucast b) OR push_bit 16 (ucast c) OR push_bit 24 (ucast d) :: u32)"
  shows "(ucast w :: u8) = a" and "(ucast (drop_bit 8 w) :: u8) = b"
    and "(ucast (drop_bit 16 w) :: u8) = c" and "(ucast (drop_bit 24 w) :: u8) = d"
  unfolding w_def by (rule bit_word_eqI; auto simp: bit_simps dest: bit_imp_le_length)+

section \<open>Layout of the encoded payload\<close>

lemma write_bytes_field:
  assumes "length pre = off" "length f = n"
  shows "write_bytes (pre @ replicate (n + m) z) off f = (pre @ f) @ replicate m z"
  using assms by (simp add: write_bytes_eq)

lemma layout_writes:
  fixes h f1 f2 f3 f4 f5 f6 f7 f8 :: "u8 list"
  assumes "length h = 10" "length f1 = 40" "length f2 = 40" "length f3 = 40" "length f4 = 40"
    "length f5 = 40" "length f6 = 40" "length f7 = 40" "length f8 = 40"
  shows "write_bytes (write_bytes (write_bytes (write_bytes (write_bytes (write_bytes
           (write_bytes (write_bytes (h @ replicate 322 0x00) 0x0A f1) 0x32 f2) 0x5A f3) 0x82 f4)
           0xAA f5) 0xD2 f6) 0xFA f7) 0x122 f8
         = h @ f1 @ f2 @ f3 @ f4 @ f5 @ f6 @ f7 @ f8 @ [0x00, 0x00]"
proof -
  have 1: "write_bytes (h @ replicate 322 0x00) 0x0A f1 = (h @ f1) @ replicate 282 0x00"
    using write_bytes_field [of h 10 f1 40 282 "0x00"] assms by simp
  have 2: "write_bytes ((h @ f1) @ replicate 282 0x00) 0x32 f2 = (h @ f1 @ f2) @ replicate 242 0x00"
    using write_bytes_field [of "h @ f1" 50 f2 40 242 "0x00"] assms by simp
  have 3: "write_bytes ((h @ f1 @ f2) @ replicate 242 0x00) 0x5A f3
           = (h @ f1 @ f2 @ f3) @ replicate 202 0x00"
    using write_bytes_field [of "h @ f1 @ f2" 90 f3 40 202 "0x00"] assms by simp
  have 4: "write_bytes ((h @ f1 @ f2 @ f3) @ replicate 202 0x00) 0x82 f4
           = (h @ f1 @ f2 @ f3 @ f4) @ replicate 162 0x00"
    using write_bytes_field [of "h @ f1 @ f2 @ f3" 130 f4 40 162 "0x00"] assms by simp
  have 5: "write_bytes ((h @ f1 @ f2 @ f3 @ f4) @ replicate 162 0x00) 0xAA f5
           = (h @ f1 @ f2 @ f3 @ f4 @ f5) @ replicate 122 0x00"
    using write_bytes_field [of "h @ f1 @ f2 @ f3 @ f4" 170 f5 40 122 "0x00"] assms by simp
  have 6: "write_bytes ((h @ f1 @ f2 @ f3 @ f4 @ f5) @ replicate 122 0x00) 0xD2 f6
           = (h @ f1 @ f2 @ f3 @ f4 @ f5 @ f6) @ replicate 82 0x00"
    using write_bytes_field [of "h @ f1 @ f2 @ f3 @ f4 @ f5" 210 f6 40 82 "0x00"] assms by simp
  have 7: "write_bytes ((h @ f1 @ f2 @ f3 @ f4 @ f5 @ f6) @ replicate 82 0x00) 0xFA f7
           = (h @ f1 @ f2 @ f3 @ f4 @ f5 @ f6 @ f7) @ replicate 42 0x00"
    using write_bytes_field [of "h @ f1 @ f2 @ f3 @ f4 @ f5 @ f6" 250 f7 40 42 "0x00"] assms by simp
  have 8: "write_bytes ((h @ f1 @ f2 @ f3 @ f4 @ f5 @ f6 @ f7) @ replicate 42 0x00) 0x122 f8
           = (h @ f1 @ f2 @ f3 @ f4 @ f5 @ f6 @ f7 @ f8) @ replicate 2 0x00"
    using write_bytes_field [of "h @ f1 @ f2 @ f3 @ f4 @ f5 @ f6 @ f7" 290 f8 40 2 "0x00"] assms by simp
  have r: "replicate 2 (0x00 :: u8) = [0x00, 0x00]" by (simp add: numeral_2_eq_2)
  show ?thesis unfolding 1 2 3 4 5 6 7 8 r by simp
qed

lemma header_writes:
  fixes v0 v1 v2 v3 v4 v5 v6 v7 v8 v9 :: u8
  shows "(replicate 332 0x00)[0 := v0, 1 := v1, 2 := v2, 3 := v3, 4 := v4, 5 := v5, 6 := v6,
            7 := v7, 8 := v8, 9 := v9]
         = [v0, v1, v2, v3, v4, v5, v6, v7, v8, v9] @ replicate 322 0x00"
proof -
  have "replicate 332 (0x00 :: u8) = replicate 10 0x00 @ replicate 322 0x00"
    by (simp add: replicate_add [symmetric])
  moreover have "(replicate 10 (0x00 :: u8))[0 := v0, 1 := v1, 2 := v2, 3 := v3, 4 := v4, 5 := v5,
                    6 := v6, 7 := v7, 8 := v8, 9 := v9]
                 = [v0, v1, v2, v3, v4, v5, v6, v7, v8, v9]"
    by code_simp
  ultimately show ?thesis by (simp add: list_update_append)
qed

lemma encodeWonderCard_layout:
  "encodeWonderCard d =
     [ucast (eventId d), ucast (drop_bit 8 (eventId d)), ucast (icon d), ucast (drop_bit 8 (icon d)),
      ucast (count d), ucast (drop_bit 8 (count d)), ucast (drop_bit 16 (count d)),
      ucast (drop_bit 24 (count d)), typeColorResend d, stampMax d]
     @ encodeText (title d) 40 @ encodeText (subtitle d) 40
     @ encodeText (contentLine1 d) 40 @ encodeText (contentLine2 d) 40
     @ encodeText (contentLine3 d) 40 @ encodeText (contentLine4 d) 40
     @ encodeText (warningLine1 d) 40 @ encodeText (warningLine2 d) 40 @ [0x00, 0x00]"
  unfolding encodeWonderCard_def Let_def header_writes
  by (rule layout_writes) (simp_all add: length_encodeText)

section \<open>Round trip of the payload\<close>

lemma field_of_text_area:
  assumes "list_all P (take 320 (drop 10 p))" "off + 40 \<le> 320"
  shows "list_all P (take 40 (drop (10 + off) p))"
proof -
  have "take 40 (drop (10 + off) p) = drop off (take (40 + off) (drop 10 p))"
    by (simp add: take_drop add.commute)
  moreover have "set (drop off (take (40 + off) (drop 10 p))) \<subseteq> set (take 320 (drop 10 p))"
    using assms(2) set_drop_subset [of off "take (40 + off) (drop 10 p)"]
      set_take_subset_set_take [of "40 + off" 320 "drop 10 p"]
    by (simp add: add.commute)
  ultimately show ?thesis using assms(1) by (auto simp: list_all_iff)
qed

lemma split_at: "drop k p = take n (drop k p) @ drop (k + n) p"
  by (metis append_take_drop_id drop_drop add.commute)

lemma payload_split:
  "p = take 10 p @ take 40 (drop 10 p) @ take 40 (drop 50 p) @ take 40 (drop 90 p)
       @ take 40 (drop 130 p) @ take 40 (drop 170 p) @ take 40 (drop 210 p)
       @ take 40 (drop 250 p) @ take 40 (drop 290 p) @ drop 330 p"
proof -
  have "p = take 10 p @ drop 10 p" by simp
  also have "drop 10 p = take 40 (drop 10 p) @ drop 50 p" using split_at [of 10 p 40] by simp
  also have "drop 50 p = take 40 (drop 50 p) @ drop 90 p" using split_at [of 50 p 40] by simp
  also have "drop 90 p = take 40 (drop 90 p) @ drop 130 p" using split_at [of 90 p 40] by simp
  also have "drop 130 p = take 40 (drop 130 p) @ drop 170 p" using split_at [of 130 p 40] by simp
  also have "drop 170 p = take 40 (drop 170 p) @ drop 210 p" using split_at [of 170 p 40] by simp
  also have "drop 210 p = take 40 (drop 210 p) @ drop 250 p" using split_at [of 210 p 40] by simp
  also have "drop 250 p = take 40 (drop 250 p) @ drop 290 p" using split_at [of 250 p 40] by simp
  also have "drop 290 p = take 40 (drop 290 p) @ drop 330 p" using split_at [of 290 p 40] by simp
  finally show ?thesis .
qed

lemma take_10:
  assumes "10 \<le> length p"
  shows "take 10 p = [p ! 0, p ! 1, p ! 2, p ! 3, p ! 4, p ! 5, p ! 6, p ! 7, p ! 8, p ! 9]"
proof -
  have "take (Suc 0) p = [p ! 0]" using assms by (cases p) simp_all
  then show ?thesis using assms by (simp add: eval_nat_numeral take_Suc_conv_app_nth)
qed

lemma drop_330:
  assumes "length p = 332"
  shows "drop 330 p = [p ! 330, p ! 331]"
proof -
  have "drop 330 p = p ! 330 # drop (Suc 330) p"
    using assms by (intro Cons_nth_drop_Suc [symmetric]) simp
  also have "drop (Suc 330) p = p ! 331 # drop (Suc 331) p"
    using assms by (simp add: Cons_nth_drop_Suc [symmetric])
  finally show ?thesis using assms by simp
qed

lemma read_u16_le_bytes:
  "ucast (read_u16_le p i) = p ! i" "ucast (drop_bit 8 (read_u16_le p i)) = p ! (i + 1)"
  unfolding read_u16_le_def by (rule le16_bytes)+

lemma read_u32_le_bytes:
  "ucast (read_u32_le p i) = p ! i" "ucast (drop_bit 8 (read_u32_le p i)) = p ! (i + 1)"
  "ucast (drop_bit 16 (read_u32_le p i)) = p ! (i + 2)"
  "ucast (drop_bit 24 (read_u32_le p i)) = p ! (i + 3)"
  unfolding read_u32_le_def by (rule le32_bytes)+

lemma parse_header:
  assumes "length p = 332"
  shows "[ucast (eventId (parseWonderCard p)), ucast (drop_bit 8 (eventId (parseWonderCard p))),
          ucast (icon (parseWonderCard p)), ucast (drop_bit 8 (icon (parseWonderCard p))),
          ucast (count (parseWonderCard p)), ucast (drop_bit 8 (count (parseWonderCard p))),
          ucast (drop_bit 16 (count (parseWonderCard p))),
          ucast (drop_bit 24 (count (parseWonderCard p))),
          typeColorResend (parseWonderCard p), stampMax (parseWonderCard p)]
         = take 10 p"
  using assms
  by (simp add: parseWonderCard_def take_10 read_u16_le_bytes read_u32_le_bytes)

lemma representable_zero: "representable 0x00"
  using table_punctuation(8) by (simp add: representable_iff has_table_entry_def unicodeToGen3_space)

lemma representable_TES: "representable 0xCE" "representable 0xBF" "representable 0xCD"
proof -
  have "GEN3_TO_UNICODE ! 0xCE = 0x54" "GEN3_TO_UNICODE ! 0xBF = 0x45" "GEN3_TO_UNICODE ! 0xCD = 0x53"
    by code_simp+
  then show "representable 0xCE" "representable 0xBF" "representable 0xCD"
    by (simp_all add: representable_iff has_table_entry_def unicodeToGen3_def)
qed

section \<open>Parse and encode of a gift-card payload\<close>

text \<open>
  C6, as stated, fails: the text fields of \<open>trailing_payload\<close> are zero padding after the
  empty text, and encoding the parsed record does not give the payload back, since byte 330
  comes back as zero.
\<close>

theorem encode_parse_trailing_counterexample:
  "length trailing_payload = WONDERCARD_PAYLOAD_SIZE
   \<and> text_fields_representable trailing_payload
   \<and> encodeWonderCard (parseWonderCard trailing_payload) \<noteq> trailing_payload"
proof -
  have "encodeWonderCard (parseWonderCard trailing_payload) ! 330 = 0x00"
    by (simp add: encodeWonderCard_layout nth_append length_encodeText)
  moreover have "trailing_payload ! 330 = 0x01"
    by (simp add: trailing_payload_def nth_append)
  ultimately have "encodeWonderCard (parseWonderCard trailing_payload) \<noteq> trailing_payload"
    by auto
  moreover have "text_fields_representable trailing_payload"
    by (simp add: text_fields_representable_def trailing_payload_def list_all_iff representable_zero)
  ultimately show ?thesis by (simp add: trailing_payload_def)
qed

text \<open>
  C6, amended. For every 332-byte payload whose eight text fields consist of representable
  bytes (zero padding included) and whose two bytes after the last text field, at offsets 330
  and 331, are zero, encoding the parsed record gives the payload back.
\<close>

theorem encode_parse_round_trip:
  assumes "length p = WONDERCARD_PAYLOAD_SIZE" "text_fields_representable p"
    "p ! 330 = 0x00" "p ! 331 = 0x00"
  shows "encodeWonderCard (parseWonderCard p) = p"
proof -
  have area: "list_all representable (take 320 (drop 10 p))"
    using assms(2) by (simp add: text_fields_representable_def)
  have f: "encodeText (decodeText (drop (10 + off) p) 40) 40 = take 40 (drop (10 + off) p)"
    if "off + 40 \<le> 320" for off
    using field_of_text_area [OF area that] that assms(1) by (intro text_field_round_trip) simp_all
  have fields:
    "encodeText (title (parseWonderCard p)) 40 = take 40 (drop 10 p)"
    "encodeText (subtitle (parseWonderCard p)) 40 = take 40 (drop 50 p)"
    "encodeText (contentLine1 (parseWonderCard p)) 40 = take 40 (drop 90 p)"
    "encodeText (contentLine2 (parseWonderCard p)) 40 = take 40 (drop 130 p)"
    "encodeText (contentLine3 (parseWonderCard p)) 40 = take 40 (drop 170 p)"
    "encodeText (contentLine4 (parseWonderCard p)) 40 = take 40 (drop 210 p)"
    "encodeText (warningLine1 (parseWonderCard p)) 40 = take 40 (drop 250 p)"
    "encodeText (warningLine2 (parseWonderCard p)) 40 = take 40 (drop 290 p)"
    using assms(1) f [of 0] f [of 40] f [of 80] f [of 120] f [of 160] f [of 200] f [of 240]
      f [of 280]
    by (simp_all add: parseWonderCard_def)
  have tail: "[0x00, 0x00] = drop 330 p"
    using assms by (simp add: drop_330)
  show ?thesis
    unfolding encodeWonderCard_layout parse_header [OF assms(1)] fields tail
    by (rule payload_split [symmetric])
qed

theorem encode_parse_round_trip_witness:
  "length test_payload = WONDERCARD_PAYLOAD_SIZE
   \<and> text_fields_representable test_payload
   \<and> test_payload ! 330 = 0x00 \<and> test_payload ! 331 = 0x00
   \<and> encodeWonderCard (parseWonderCard test_payload) = test_payload"
proof -
  have len: "length test_payload = WONDERCARD_PAYLOAD_SIZE"
    by (simp add: test_payload_def)
  have rep: "text_fields_representable test_payload"
    by (simp add: text_fields_representable_def test_payload_def list_all_iff
        representable_zero representable_TES)
  have z: "test_payload ! 330 = 0x00" "test_payload ! 331 = 0x00"
    by (simp_all add: test_payload_def nth_append)
  show ?thesis
    using encode_parse_round_trip [OF len rep z] len rep z by simp
qed

section \<open>The checksum write\<close>


lemma length_writeSectionChecksum [simp]:
  "length (writeSectionChecksum buf base len) = length buf"
  by (simp add: writeSectionChecksum_def Let_def)

lemma writeSectionChecksum_frame:
  assumes "i \<noteq> base + CHECKSUM_OFFSET" "i \<noteq> base + CHECKSUM_OFFSET + 1"
  shows "writeSectionChecksum buf base len ! i = buf ! i"
  using assms by (simp add: writeSectionChecksum_def Let_def)




section \<open>Located sections lie inside the buffer\<close>

lemma find_upt_less: "find P [0..<n] = Some k \<Longrightarrow> k < n"
  by (auto simp: find_Some_iff)

lemma findSection_found:
  assumes "0 \<le> findSection sf sectionId"
  shows "findSection sf sectionId < 14" "0 \<le> m_activeSaveSlot sf"
  using assms
  by (auto simp: findSection_def split: if_splits option.splits dest: find_upt_less)


lemma section_in_buffer:
  assumes "m_activeSaveSlot sf \<le> 1" "0 \<le> pos" "pos < 14" "q < SECTION_SIZE"
  shows "slotOffset sf + nat pos * SECTION_SIZE + q < EXPECTED_FILE_SIZE"
proof -
  have "nat (m_activeSaveSlot sf) \<le> 1" using assms(1) by simp
  then have "slotOffset sf \<le> 57344" by (simp add: slotOffset_def)
  moreover have "nat pos \<le> 13" using assms(2,3) by simp
  then have "nat pos * SECTION_SIZE \<le> 13 * SECTION_SIZE" by (rule mult_le_mono1)
  ultimately show ?thesis using assms(4) by simp
qed

lemma section2_in_buffer:
  assumes "length (m_bytes sf) = EXPECTED_FILE_SIZE" "m_activeSaveSlot sf \<le> 1"
    "0 \<le> findSection sf 2" "q < SECTION_SIZE"
  shows "section2Offset sf + q < length (m_bytes sf)"
  using section_in_buffer [OF assms(2,3) findSection_found(1) [OF assms(3)] assms(4)] assms(1)
  by (simp add: section2Offset_def)

lemma mysteryGiftFlagOffset_bound: "mysteryGiftFlagOffset sf < CHECKSUM_DATA_LENGTH_DEFAULT"
  by (simp add: mysteryGiftFlagOffset_def)

section \<open>Frame of enableMysteryGift\<close>

text \<open>
  C10. In a loaded save of a game with Mystery Gift whose active slot holds logical section
  2 (the conditions under which \<open>enableMysteryGift\<close> does not return an error): when the flag
  bit is already set the operation returns success with the state unchanged; otherwise it
  returns success with a buffer in which the flag byte has the flag bit OR-ed in, the two
  checksum bytes of the footer of section 2 hold the low and the high byte of the checksum
  of the section's data with the flag set, and every other byte is as before.
\<close>

theorem enableMysteryGift_frame:
  assumes "length (m_bytes sf) = EXPECTED_FILE_SIZE" "m_activeSaveSlot sf \<le> 1"
    "m_detectedGame sf = FireRedLeafGreen \<or> m_detectedGame sf = Emerald"
    "0 \<le> findSection sf 2"
  shows "(m_bytes sf ! (section2Offset sf + mysteryGiftFlagOffset sf) AND mysteryGiftFlagBit sf \<noteq> 0
            \<longrightarrow> enableMysteryGift sf = Inr sf)
       \<and> (m_bytes sf ! (section2Offset sf + mysteryGiftFlagOffset sf) AND mysteryGiftFlagBit sf = 0
            \<longrightarrow> (\<exists>bytes' checksum. enableMysteryGift sf = Inr (sf\<lparr>m_bytes := bytes'\<rparr>)
                  \<and> length bytes' = length (m_bytes sf)
                  \<and> bytes' ! (section2Offset sf + mysteryGiftFlagOffset sf)
                      = m_bytes sf ! (section2Offset sf + mysteryGiftFlagOffset sf)
                        OR mysteryGiftFlagBit sf
                  \<and> checksum = computeSectionChecksum
                       ((m_bytes sf)[section2Offset sf + mysteryGiftFlagOffset sf
                          := m_bytes sf ! (section2Offset sf + mysteryGiftFlagOffset sf)
                             OR mysteryGiftFlagBit sf])
                       (section2Offset sf) CHECKSUM_DATA_LENGTH_DEFAULT
                  \<and> bytes' ! (section2Offset sf + CHECKSUM_OFFSET) = ucast checksum
                  \<and> bytes' ! (section2Offset sf + CHECKSUM_OFFSET + 1) = ucast (drop_bit 8 checksum)
                  \<and> (\<forall>i. i \<noteq> section2Offset sf + mysteryGiftFlagOffset sf
                         \<and> i \<noteq> section2Offset sf + CHECKSUM_OFFSET
                         \<and> i \<noteq> section2Offset sf + CHECKSUM_OFFSET + 1
                         \<longrightarrow> bytes' ! i = m_bytes sf ! i)))"
proof -
  let ?flag = "section2Offset sf + mysteryGiftFlagOffset sf"
  let ?cur = "m_bytes sf ! ?flag"
  let ?flagged = "(m_bytes sf)[?flag := ?cur OR mysteryGiftFlagBit sf]"
  let ?sum = "computeSectionChecksum ?flagged (section2Offset sf) CHECKSUM_DATA_LENGTH_DEFAULT"
  let ?new = "writeSectionChecksum ?flagged (section2Offset sf) (getSectionChecksumLength sf 2)"
  have guards: "isLoaded sf" "m_detectedGame sf \<noteq> Unknown" "m_detectedGame sf \<noteq> RubySapphire"
    "\<not> findSection sf 2 < 0"
    using assms by (auto simp: isLoaded_def)
  have len2: "getSectionChecksumLength sf 2 = CHECKSUM_DATA_LENGTH_DEFAULT"
    by (simp add: getSectionChecksumLength_def)
  have set: "enableMysteryGift sf = Inr sf" if "?cur AND mysteryGiftFlagBit sf \<noteq> 0"
    using guards that by (simp add: enableMysteryGift_def Let_def)
  have clear: "enableMysteryGift sf = Inr (sf\<lparr>m_bytes := ?new\<rparr>)"
    if "?cur AND mysteryGiftFlagBit sf = 0"
    using guards that by (simp add: enableMysteryGift_def Let_def)
  have in_buf: "?flag < length (m_bytes sf)"
    using section2_in_buffer [OF assms(1,2,4), of "mysteryGiftFlagOffset sf"]
      mysteryGiftFlagOffset_bound [of sf] by simp
  have sum_in_buf: "section2Offset sf + CHECKSUM_OFFSET < length ?flagged"
    "section2Offset sf + CHECKSUM_OFFSET + 1 < length ?flagged"
    using section2_in_buffer [OF assms(1,2,4), of CHECKSUM_OFFSET]
      section2_in_buffer [OF assms(1,2,4), of "CHECKSUM_OFFSET + 1"]
    by (simp_all add: add.assoc)
  have "mysteryGiftFlagOffset sf \<noteq> CHECKSUM_OFFSET" "mysteryGiftFlagOffset sf \<noteq> CHECKSUM_OFFSET + 1"
    using mysteryGiftFlagOffset_bound [of sf] by simp_all
  then have "?flag \<noteq> section2Offset sf + CHECKSUM_OFFSET"
    "?flag \<noteq> section2Offset sf + CHECKSUM_OFFSET + 1" by simp_all
  then have flag_byte: "?new ! ?flag = ?cur OR mysteryGiftFlagBit sf"
    using in_buf by (simp add: writeSectionChecksum_frame)
  have low: "?new ! (section2Offset sf + CHECKSUM_OFFSET) = ucast ?sum"
    using sum_in_buf unfolding len2 by (simp add: writeSectionChecksum_def Let_def)
  have high: "?new ! (section2Offset sf + CHECKSUM_OFFSET + 1) = ucast (drop_bit 8 ?sum)"
    using sum_in_buf unfolding len2 by (simp add: writeSectionChecksum_def Let_def)
  have frame: "?new ! i = m_bytes sf ! i"
    if "i \<noteq> ?flag" "i \<noteq> section2Offset sf + CHECKSUM_OFFSET"
       "i \<noteq> section2Offset sf + CHECKSUM_OFFSET + 1" for i
    using that by (simp add: writeSectionChecksum_frame)
  show ?thesis
  proof (intro conjI impI)
    assume "?cur AND mysteryGiftFlagBit sf \<noteq> 0"
    then show "enableMysteryGift sf = Inr sf" by (rule set)
  next
    assume "?cur AND mysteryGiftFlagBit sf = 0"
    then have "enableMysteryGift sf = Inr (sf\<lparr>m_bytes := ?new\<rparr>)" by (rule clear)
    moreover have "length ?new = length (m_bytes sf)" by simp
    ultimately show "\<exists>bytes' checksum. enableMysteryGift sf = Inr (sf\<lparr>m_bytes := bytes'\<rparr>)
                  \<and> length bytes' = length (m_bytes sf)
                  \<and> bytes' ! ?flag = ?cur OR mysteryGiftFlagBit sf
                  \<and> checksum = ?sum
                  \<and> bytes' ! (section2Offset sf + CHECKSUM_OFFSET) = ucast checksum
                  \<and> bytes' ! (section2Offset sf + CHECKSUM_OFFSET + 1) = ucast (drop_bit 8 checksum)
                  \<and> (\<forall>i. i \<noteq> ?flag
                         \<and> i \<noteq> section2Offset sf + CHECKSUM_OFFSET
                         \<and> i \<noteq> section2Offset sf + CHECKSUM_OFFSET + 1
                         \<longrightarrow> bytes' ! i = m_bytes sf ! i)"
      using flag_byte low high frame by blast
  qed
qed

theorem enableMysteryGift_frame_witness:
  "loadFromFile emerald_bytes = Inr emerald_save
   \<and> length (m_bytes emerald_save) = EXPECTED_FILE_SIZE \<and> m_activeSaveSlot emerald_save \<le> 1
   \<and> m_detectedGame emerald_save = Emerald \<and> 0 \<le> findSection emerald_save 2
   \<and> section2Offset emerald_save + mysteryGiftFlagOffset emerald_save = 0x240B
   \<and> section2Offset emerald_save + CHECKSUM_OFFSET = 0x2FF6
   \<and> m_bytes emerald_save ! 0x240B AND mysteryGiftFlagBit emerald_save = 0
   \<and> m_bytes emerald_save ! 0x2FF6 = 0x00 \<and> m_bytes emerald_save ! 0x2FF7 = 0x00
   \<and> (\<exists>bytes'. enableMysteryGift emerald_save = Inr (emerald_save\<lparr>m_bytes := bytes'\<rparr>)
          \<and> bytes' ! 0x240B = 0x08 \<and> bytes' ! 0x2FF6 = 0x00 \<and> bytes' ! 0x2FF7 = 0x08
          \<and> bytes' ! 0x240A = m_bytes emerald_save ! 0x240A)
   \<and> enableMysteryGift emerald_save = Inr enabled_save
   \<and> length (m_bytes enabled_save) = EXPECTED_FILE_SIZE \<and> m_activeSaveSlot enabled_save \<le> 1
   \<and> m_detectedGame enabled_save = Emerald \<and> 0 \<le> findSection enabled_save 2
   \<and> m_bytes enabled_save ! 0x240B AND mysteryGiftFlagBit enabled_save \<noteq> 0
   \<and> enableMysteryGift enabled_save = Inr enabled_save"
proof -
  have d: "length (m_bytes emerald_save) = EXPECTED_FILE_SIZE" "m_activeSaveSlot emerald_save \<le> 1"
    "m_detectedGame emerald_save = FireRedLeafGreen \<or> m_detectedGame emerald_save = Emerald"
    "0 \<le> findSection emerald_save 2"
    by (simp_all add: emerald_state(2,3,5) emerald_findSection)
  have e: "length (m_bytes enabled_save) = EXPECTED_FILE_SIZE" "m_activeSaveSlot enabled_save \<le> 1"
    "m_detectedGame enabled_save = FireRedLeafGreen \<or> m_detectedGame enabled_save = Emerald"
    "0 \<le> findSection enabled_save 2"
    by (simp_all add: enabled_state(2,3,5) enabled_findSection)
  have od: "section2Offset emerald_save + mysteryGiftFlagOffset emerald_save = 0x240B"
    "section2Offset emerald_save + CHECKSUM_OFFSET + 1 = 0x2FF7"
    and os: "section2Offset emerald_save + CHECKSUM_OFFSET = 0x2FF6"
    and ob: "section2Offset emerald_save = 0x2000"
    by (simp_all add: emerald_offsets)
  have oe: "section2Offset enabled_save + mysteryGiftFlagOffset enabled_save = 0x240B"
    by (simp add: enabled_offsets)
  have fd: "m_bytes emerald_save ! 0x240B = 0" "m_bytes emerald_save ! 0x2FF6 = 0"
    "m_bytes emerald_save ! 0x2FF7 = 0"
    using emerald_section2_nth [of MYSTERY_GIFT_OFFSET_EMERALD]
      emerald_section2_nth [of CHECKSUM_OFFSET] emerald_section2_nth [of "0xFF7"]
    by (simp_all add: emerald_state(1))
  have fe: "m_bytes enabled_save ! 0x240B = 0x08"
    using emerald_bytes_length by (simp add: enabled_state(1))
  have bits: "mysteryGiftFlagBit emerald_save = 0x08" "mysteryGiftFlagBit enabled_save = 0x08"
    by (simp_all add: emerald_offsets enabled_offsets)
  have sum: "computeSectionChecksum ((m_bytes emerald_save)[0x240B := 0x08]) 0x2000
               CHECKSUM_DATA_LENGTH_DEFAULT = 0x0800"
    using emerald_flagged_sum by (simp add: emerald_state(1))
  have g: "m_detectedGame emerald_save = Emerald" "m_detectedGame enabled_save = Emerald"
    by (simp_all add: emerald_state enabled_state)
  note t1 = enableMysteryGift_frame [OF d, unfolded od, unfolded os, unfolded ob fd bits]
  note t2 = enableMysteryGift_frame [OF e, unfolded oe fe bits]
  from t1 obtain bytes' checksum where b:
    "enableMysteryGift emerald_save = Inr (emerald_save\<lparr>m_bytes := bytes'\<rparr>)"
    "bytes' ! 0x240B = 0 OR 0x08"
    "checksum = computeSectionChecksum ((m_bytes emerald_save)[0x240B := 0 OR 0x08]) 0x2000
                  CHECKSUM_DATA_LENGTH_DEFAULT"
    "bytes' ! 0x2FF6 = ucast checksum" "bytes' ! 0x2FF7 = ucast (drop_bit 8 checksum)"
    "\<forall>i. i \<noteq> 0x240B \<and> i \<noteq> 0x2FF6 \<and> i \<noteq> 0x2FF7 \<longrightarrow> bytes' ! i = m_bytes emerald_save ! i"
    by auto
  from b(3) sum have c: "checksum = 0x0800" by simp
  have "bytes' ! 0x240B = 0x08" "bytes' ! 0x2FF6 = 0x00" "bytes' ! 0x2FF7 = 0x08"
    "bytes' ! 0x240A = m_bytes emerald_save ! 0x240A"
    using b(2,4,5,6) unfolding c by (simp_all add: checksum_0800_bytes(3))
  with b(1) have first: "\<exists>bytes'. enableMysteryGift emerald_save = Inr (emerald_save\<lparr>m_bytes := bytes'\<rparr>)
          \<and> bytes' ! 0x240B = 0x08 \<and> bytes' ! 0x2FF6 = 0x00 \<and> bytes' ! 0x2FF7 = 0x08
          \<and> bytes' ! 0x240A = m_bytes emerald_save ! 0x240A"
    by blast
  from t2 have second: "enableMysteryGift enabled_save = Inr enabled_save" by simp
  show ?thesis
    using emerald_loaded d(1,2,4) e(1,2,4) g od(1) os fd fe bits first second emerald_enable
    by simp
qed

section \<open>Checksum after a mutating operation\<close>

lemma length_memset_bytes [simp]: "length (memset_bytes buf off v n) = length buf"
  by (simp add: memset_bytes_def length_write_bytes)







section \<open>LZ77: facts about the loops\<close>

lemma lz_copy_length:
  "length out \<le> dsize \<Longrightarrow>
   length (lz_copy dsize copyPos len j out) = min dsize (length out + (len - j))"
proof (induction dsize copyPos len j out rule: lz_copy.induct)
  case (1 dsize copyPos len j out)
  show ?case
  proof (cases "j < len \<and> length out < dsize")
    case True
    then have "lz_copy dsize copyPos len j out
             = lz_copy dsize copyPos len (j + 1) (out @ [out ! (copyPos + j)])"
      by (subst lz_copy.simps) simp
    moreover have "length (lz_copy dsize copyPos len (j + 1) (out @ [out ! (copyPos + j)]))
                 = min dsize (length (out @ [out ! (copyPos + j)]) + (len - (j + 1)))"
      using True by (intro "1.IH") simp_all
    moreover have "length (out @ [out ! (copyPos + j)]) + (len - (j + 1)) = length out + (len - j)"
      using True by (simp del: Nat.add_diff_assoc Nat.add_diff_assoc2) arith
    ultimately show ?thesis by (simp only:)
  next
    case False
    then show ?thesis using "1.prems" by (subst lz_copy.simps) auto
  qed
qed

lemma lz_copy_bytes:
  assumes "copyPos + j < length out"
  shows "take (length out) (lz_copy dsize copyPos len j out) = out
       \<and> (\<forall>k. length out \<le> k \<and> k < length (lz_copy dsize copyPos len j out) \<longrightarrow>
              lz_copy dsize copyPos len j out ! k
              = lz_copy dsize copyPos len j out ! (k - (length out - (copyPos + j))))"
  using assms
proof (induction dsize copyPos len j out rule: lz_copy.induct)
  case (1 dsize copyPos len j out)
  show ?case
  proof (cases "j < len \<and> length out < dsize")
    case True
    let ?out = "out @ [out ! (copyPos + j)]"
    let ?res = "lz_copy dsize copyPos len (j + 1) ?out"
    have step: "lz_copy dsize copyPos len j out = ?res"
      using True by (subst lz_copy.simps) simp
    have "copyPos + (j + 1) < length ?out" using "1.prems" by simp
    with True "1.IH" have ih: "take (length ?out) ?res = ?out"
      "\<And>k. length ?out \<le> k \<Longrightarrow> k < length ?res \<Longrightarrow>
            ?res ! k = ?res ! (k - (length ?out - (copyPos + (j + 1))))"
      by simp_all
    have d: "length ?out - (copyPos + (j + 1)) = length out - (copyPos + j)"
      using "1.prems" by simp
    have pre: "?res ! m = ?out ! m" if "m < length ?out" for m
    proof -
      have "take (length ?out) ?res ! m = ?res ! m" using that by simp
      then show ?thesis by (simp only: ih(1))
    qed
    have "take (length out) ?res = take (length out) (take (length ?out) ?res)"
      by (simp add: min_def)
    then have t: "take (length out) ?res = out" by (simp only: ih(1)) simp
    have "?res ! k = ?res ! (k - (length out - (copyPos + j)))"
      if k: "length out \<le> k" "k < length ?res" for k
    proof (cases "k = length out")
      case True
      have e: "k - (length out - (copyPos + j)) = copyPos + j"
        using True "1.prems" by simp
      have "?res ! k = ?out ! length out" using pre [of "length out"] True by simp
      also have "\<dots> = out ! (copyPos + j)" by simp
      also have "\<dots> = ?out ! (copyPos + j)" using "1.prems" by (simp add: nth_append)
      also have "\<dots> = ?res ! (copyPos + j)" using pre [of "copyPos + j"] "1.prems" by simp
      finally show ?thesis unfolding e .
    next
      case False
      then have "length ?out \<le> k" using k by simp
      from ih(2) [OF this k(2)] show ?thesis by (simp only: d)
    qed
    with t show ?thesis unfolding step by blast
  next
    case False
    then have "lz_copy dsize copyPos len j out = out" by (subst lz_copy.simps) auto
    then show ?thesis by simp
  qed
qed

lemma lz_blocks_bound:
  "lz_blocks rom dsize i flags srcPos out = Inr (srcPos', out') \<Longrightarrow> length out \<le> dsize \<Longrightarrow>
   length out' \<le> dsize"
proof (induction rom dsize i flags srcPos out rule: lz_blocks.induct)
  case (1 rom dsize i flags srcPos out)
  have "length (lz_copy dsize c l 0 out) \<le> dsize" for c l
    using "1.prems"(2) by (simp add: lz_copy_length)
  moreover have "length (out @ [b]) \<le> dsize" if "\<not> dsize \<le> length out" for b
    using that by simp
  ultimately show ?case
    using "1.prems" "1.IH"
    by (subst (asm) lz_blocks.simps) (fastforce split: if_splits)
qed

lemma lz_loop_exact:
  "lz_loop rom dsize srcPos out = Inr res \<Longrightarrow> length out \<le> dsize \<Longrightarrow> length res = dsize"
proof (induction rom dsize srcPos out rule: lz_loop.induct)
  case (1 rom dsize srcPos out)
  show ?case
  proof (cases "length out < dsize")
    case False
    with "1.prems" show ?thesis by (subst (asm) lz_loop.simps) simp
  next
    case True
    with "1.prems"(1) have p: "\<not> srcPos \<ge> unat (rom_size32 rom)"
      by (subst (asm) lz_loop.simps) (simp split: if_splits)
    with True "1.prems"(1) obtain srcPos' out'
      where b: "lz_blocks rom dsize 0 (rom ! srcPos) (srcPos + 1) out = Inr (srcPos', out')"
        and rest: "lz_loop rom dsize srcPos' out' = Inr res"
      by (subst (asm) lz_loop.simps) (auto split: sum.splits)
    have "length out' \<le> dsize" using lz_blocks_bound [OF b "1.prems"(2)] .
    with "1.IH" [OF True p b refl rest] show ?thesis .
  qed
qed

lemma follows_layout_iff:
  "follows_layout out layout \<longleftrightarrow>
     length out = length layout \<and> (\<forall>k < length out. origin_ok out k (layout ! k))"
  by (auto simp: follows_layout_def list_all_iff)

lemma origin_ok_prefix:
  assumes "origin_ok out k orig" "k < length out" "take (length out) out' = out"
  shows "origin_ok out' k orig"
proof -
  have p: "out' ! m = out ! m" if "m < length out" for m
  proof -
    have "take (length out) out' ! m = out' ! m" using that by simp
    then show ?thesis by (simp only: assms(3))
  qed
  show ?thesis
  proof (cases orig)
    case (Literal b)
    with assms(1) p [OF assms(2)] show ?thesis by simp
  next
    case (Copied d)
    with assms(1) have d: "1 \<le> d" "d \<le> k" "out ! k = out ! (k - d)" by simp_all
    have "k - d < length out" using assms(2) by simp
    from p [OF this] p [OF assms(2)] d Copied show ?thesis by simp
  qed
qed

lemma follows_layout_literal:
  assumes "follows_layout out layout"
  shows "follows_layout (out @ [b]) (layout @ [Literal b])"
proof -
  from assms have len: "length out = length layout"
    and ok: "\<And>k. k < length out \<Longrightarrow> origin_ok out k (layout ! k)"
    by (simp_all add: follows_layout_iff)
  have "origin_ok (out @ [b]) k ((layout @ [Literal b]) ! k)" if "k < length (out @ [b])" for k
  proof (cases "k < length out")
    case True
    have "origin_ok (out @ [b]) k (layout ! k)"
      using ok [OF True] True by (rule origin_ok_prefix) simp
    with True len show ?thesis by (simp add: nth_append)
  next
    case False
    with that have "k = length out" by simp
    with len show ?thesis by (simp add: nth_append)
  qed
  with len show ?thesis by (simp add: follows_layout_iff)
qed

lemma follows_layout_copy:
  assumes "follows_layout out layout" "1 \<le> d" "d \<le> length out" "length out \<le> dsize"
  shows "follows_layout (lz_copy dsize (length out - d) len 0 out)
           (layout @ replicate (min len (dsize - length out)) (Copied d))"
proof -
  let ?res = "lz_copy dsize (length out - d) len 0 out"
  let ?layout = "layout @ replicate (min len (dsize - length out)) (Copied d)"
  from assms(1) have len: "length out = length layout"
    and ok: "\<And>k. k < length out \<Longrightarrow> origin_ok out k (layout ! k)"
    by (simp_all add: follows_layout_iff)
  have l: "length ?res = min dsize (length out + len)"
    using assms(4) by (simp add: lz_copy_length)
  have l': "length ?res = length ?layout"
    unfolding l using len assms(4) by (auto simp: min_def)
  have "length out - d + 0 < length out" using assms(2,3) by arith
  from lz_copy_bytes [OF this, of dsize len]
  have pre: "take (length out) ?res = out"
    and earlier: "\<And>k. length out \<le> k \<Longrightarrow> k < length ?res \<Longrightarrow>
                 ?res ! k = ?res ! (k - (length out - (length out - d + 0)))"
    by blast+
  have dd: "length out - (length out - d + 0) = d" using assms(3) by arith
  have "origin_ok ?res k (?layout ! k)" if k: "k < length ?res" for k
  proof (cases "k < length out")
    case True
    have "origin_ok ?res k (layout ! k)"
      using ok [OF True] True pre by (rule origin_ok_prefix)
    with True len show ?thesis by (simp add: nth_append)
  next
    case False
    then have ge: "length out \<le> k" by simp
    from k have "k < length layout + min len (dsize - length out)"
      unfolding l' by simp
    with ge len have "k - length layout < min len (dsize - length out)" by arith
    then have "?layout ! k = Copied d"
      using ge len by (simp add: nth_append)
    moreover have "?res ! k = ?res ! (k - d)" using earlier [OF ge k] unfolding dd .
    moreover have "d \<le> k" using assms(3) ge by simp
    ultimately show ?thesis using assms(2) by simp
  qed
  with l' show ?thesis by (simp add: follows_layout_iff)
qed

lemma follows_layout_length: "follows_layout out layout \<Longrightarrow> length out = length layout"
  by (simp add: follows_layout_iff)

lemma lz_blocks_follow_layout:
  "lz_layout_blocks rom dsize i flags srcPos layout = Some (srcPos', layout') \<Longrightarrow>
   follows_layout out layout \<Longrightarrow>
   \<exists>out'. lz_blocks rom dsize i flags srcPos out = Inr (srcPos', out') \<and> follows_layout out' layout'"
proof (induction rom dsize i flags srcPos out arbitrary: layout rule: lz_blocks.induct)
  case (1 rom dsize i flags srcPos out)
  let ?size = "unat (rom_size32 rom)"
  let ?disp = "lz_block_displacement (rom ! srcPos) (rom ! (srcPos + 1))"
  let ?len = "lz_block_length (rom ! srcPos)"
  note len = follows_layout_length [OF "1.prems"(2)]
  note walk = "1.prems"(1) [unfolded lz_layout_blocks.simps [of rom dsize i flags srcPos layout]]
  show ?case
  proof (cases "i < 8 \<and> length out < dsize")
    case False
    with walk len "1.prems"(2) show ?thesis by (subst lz_blocks.simps) auto
  next
    case run: True
    show ?thesis
    proof (cases "flags AND 0x80 \<noteq> 0")
      case True
      with run walk len have c: "srcPos + 1 < ?size" "?disp \<le> length out"
        and rest: "lz_layout_blocks rom dsize (i + 1) (push_bit 1 flags) (srcPos + 2)
                     (layout @ replicate (min ?len (dsize - length out)) (Copied ?disp))
                   = Some (srcPos', layout')"
        by (auto split: if_splits)
      let ?out = "lz_copy dsize (length out - ?disp) ?len 0 out"
      have "1 \<le> ?disp" by (simp add: lz_block_displacement_def)
      with "1.prems"(2) c(2) run
      have "follows_layout ?out (layout @ replicate (min ?len (dsize - length out)) (Copied ?disp))"
        by (intro follows_layout_copy) simp_all
      with "1.IH"(1) [OF _ _ _ _ _ _ rest] run True c
      have "\<exists>out'. lz_blocks rom dsize (i + 1) (push_bit 1 flags) (srcPos + 2) ?out
                     = Inr (srcPos', out') \<and> follows_layout out' layout'"
        by simp
      moreover have "lz_blocks rom dsize i flags srcPos out
                   = lz_blocks rom dsize (i + 1) (push_bit 1 flags) (srcPos + 2) ?out"
        using run True c by (subst lz_blocks.simps) simp
      ultimately show ?thesis by simp
    next
      case False
      with run walk len have c: "srcPos < ?size"
        and rest: "lz_layout_blocks rom dsize (i + 1) (push_bit 1 flags) (srcPos + 1)
                     (layout @ [Literal (rom ! srcPos)]) = Some (srcPos', layout')"
        by (auto split: if_splits)
      let ?out = "out @ [rom ! srcPos]"
      have "follows_layout ?out (layout @ [Literal (rom ! srcPos)])"
        using "1.prems"(2) by (rule follows_layout_literal)
      with "1.IH"(2) [OF _ _ _ _ rest] run False c
      have "\<exists>out'. lz_blocks rom dsize (i + 1) (push_bit 1 flags) (srcPos + 1) ?out
                     = Inr (srcPos', out') \<and> follows_layout out' layout'"
        by simp
      moreover have "lz_blocks rom dsize i flags srcPos out
                   = lz_blocks rom dsize (i + 1) (push_bit 1 flags) (srcPos + 1) ?out"
        using run False c by (subst lz_blocks.simps) simp
      ultimately show ?thesis by simp
    qed
  qed
qed

lemma lz_loop_follows_layout:
  "lz_layout_stream rom dsize srcPos layout = Some layout' \<Longrightarrow> follows_layout out layout \<Longrightarrow>
   length out \<le> dsize \<Longrightarrow>
   \<exists>out'. lz_loop rom dsize srcPos out = Inr out' \<and> length out' = dsize
          \<and> follows_layout out' layout'"
proof (induction rom dsize srcPos out arbitrary: layout rule: lz_loop.induct)
  case (1 rom dsize srcPos out)
  note len = follows_layout_length [OF "1.prems"(2)]
  show ?case
  proof (cases "length out < dsize")
    case False
    with "1.prems" len show ?thesis
      by (subst lz_loop.simps, subst (asm) lz_layout_stream.simps) simp
  next
    case True
    with "1.prems"(1) len have p: "srcPos < unat (rom_size32 rom)"
      by (subst (asm) lz_layout_stream.simps) (simp split: if_splits)
    with True "1.prems"(1) len obtain srcPos' layout1
      where w: "lz_layout_blocks rom dsize 0 (rom ! srcPos) (srcPos + 1) layout
                = Some (srcPos', layout1)"
        and rest: "lz_layout_stream rom dsize srcPos' layout1 = Some layout'"
      by (subst (asm) lz_layout_stream.simps) (auto split: option.splits)
    from lz_blocks_follow_layout [OF w "1.prems"(2)] obtain out'
      where b: "lz_blocks rom dsize 0 (rom ! srcPos) (srcPos + 1) out = Inr (srcPos', out')"
        and f: "follows_layout out' layout1" by blast
    have "length out' \<le> dsize" using lz_blocks_bound [OF b "1.prems"(3)] .
    with "1.IH" [OF True _ b refl rest f] p
    have "\<exists>res. lz_loop rom dsize srcPos' out' = Inr res \<and> length res = dsize
                \<and> follows_layout res layout'" by simp
    moreover have "lz_loop rom dsize srcPos out = lz_loop rom dsize srcPos' out'"
      using True p b by (subst lz_loop.simps) simp
    ultimately show ?thesis by simp
  qed
qed

section \<open>LZ77 decompression\<close>

text \<open>
  C4. \<open>decompressLZ77\<close> returns an error when the header byte is not \<open>0x10\<close> or the declared
  length is 0 or above 1 MiB. On every well-formed stream it returns an output whose length
  is the declared length and which follows the layout of the stream: a literal position
  holds the literal byte, and a position written by a back-reference with displacement \<open>d\<close>
  holds the byte \<open>d\<close> positions before it in the output, also when \<open>d\<close> is smaller than the
  copy length and the copy reads bytes it has just written. Whenever it returns an output
  at all, the length of the output is the declared one.
\<close>

theorem decompressLZ77_contract:
  "(readByte rom offset \<noteq> 0x10 \<or> lz77_declared_size rom offset = 0
      \<or> lz77_declared_size rom offset > 0x100000
      \<longrightarrow> (\<exists>e. decompressLZ77 rom offset = Inl e))
   \<and> (lz77_well_formed rom offset
      \<longrightarrow> (\<exists>layout out. lz77_layout rom offset = Some layout
                 \<and> decompressLZ77 rom offset = Inr out
                 \<and> length out = unat (lz77_declared_size rom offset)
                 \<and> length layout = length out
                 \<and> (\<forall>k < length out.
                       case layout ! k of
                         Literal b \<Rightarrow> out ! k = b
                       | Copied d \<Rightarrow> 1 \<le> d \<and> d \<le> k \<and> out ! k = out ! (k - d))))
   \<and> (\<forall>out. decompressLZ77 rom offset = Inr out
      \<longrightarrow> length out = unat (lz77_declared_size rom offset))"
proof (intro conjI allI impI)
  assume "readByte rom offset \<noteq> 0x10 \<or> lz77_declared_size rom offset = 0
      \<or> lz77_declared_size rom offset > 0x100000"
  then show "\<exists>e. decompressLZ77 rom offset = Inl e"
    by (auto simp: decompressLZ77_def Let_def)
next
  assume "lz77_well_formed rom offset"
  then obtain layout where layout: "lz77_layout rom offset = Some layout"
    by (auto simp: lz77_well_formed_def)
  then have g: "\<not> offset + 4 > rom_size32 rom" "readByte rom offset = 0x10"
    "lz77_declared_size rom offset \<noteq> 0" "\<not> lz77_declared_size rom offset > 0x100000"
    and w: "lz_layout_stream rom (unat (lz77_declared_size rom offset)) (unat (offset + 4)) []
            = Some layout"
    by (simp_all add: lz77_layout_def split: if_splits)
  have "follows_layout [] []" by (simp add: follows_layout_def)
  from lz_loop_follows_layout [OF w this] obtain out
    where o: "lz_loop rom (unat (lz77_declared_size rom offset)) (unat (offset + 4)) [] = Inr out"
      "length out = unat (lz77_declared_size rom offset)" "follows_layout out layout"
    by auto
  from o(1) g have d: "decompressLZ77 rom offset = Inr out"
    by (simp add: decompressLZ77_def Let_def)
  from o(3) have l: "length layout = length out"
    and "\<forall>k < length out. origin_ok out k (layout ! k)"
    by (simp_all add: follows_layout_iff)
  then have "\<forall>k < length out.
                       case layout ! k of
                         Literal b \<Rightarrow> out ! k = b
                       | Copied d \<Rightarrow> 1 \<le> d \<and> d \<le> k \<and> out ! k = out ! (k - d)"
    by (auto split: lz_origin.splits)
  with layout d o(2) l
  show "\<exists>layout out. lz77_layout rom offset = Some layout
                 \<and> decompressLZ77 rom offset = Inr out
                 \<and> length out = unat (lz77_declared_size rom offset)
                 \<and> length layout = length out
                 \<and> (\<forall>k < length out.
                       case layout ! k of
                         Literal b \<Rightarrow> out ! k = b
                       | Copied d \<Rightarrow> 1 \<le> d \<and> d \<le> k \<and> out ! k = out ! (k - d))"
    by blast
next
  fix out assume "decompressLZ77 rom offset = Inr out"
  then have "lz_loop rom (unat (lz77_declared_size rom offset)) (unat (offset + 4)) [] = Inr out"
    by (auto simp: decompressLZ77_def Let_def split: if_splits)
  from lz_loop_exact [OF this] show "length out = unat (lz77_declared_size rom offset)" by simp
qed

lemma overlap_stream_layout:
  "lz77_layout overlap_stream 0
   = Some [Literal 0x41, Literal 0x42, Copied 2, Copied 2, Copied 2, Copied 2, Copied 2]"
  unfolding overlap_stream_def by code_simp

lemma list_of_length_7:
  assumes "length xs = 7"
  shows "xs = [xs ! 0, xs ! 1, xs ! 2, xs ! 3, xs ! 4, xs ! 5, xs ! 6]"
proof (rule nth_equalityI)
  show "length xs = length [xs ! 0, xs ! 1, xs ! 2, xs ! 3, xs ! 4, xs ! 5, xs ! 6]"
    using assms by simp
  fix i assume "i < length xs"
  with assms have "i \<in> {0, 1, 2, 3, 4, 5, 6}" by auto
  then show "xs ! i = [xs ! 0, xs ! 1, xs ! 2, xs ! 3, xs ! 4, xs ! 5, xs ! 6] ! i"
    by auto
qed

theorem decompressLZ77_contract_witness:
  "lz77_well_formed overlap_stream 0
   \<and> lz77_declared_size overlap_stream 0 = 7
   \<and> lz_block_displacement 0x20 0x01 = 2 \<and> lz_block_length 0x20 = 5
   \<and> lz77_layout overlap_stream 0
       = Some [Literal 0x41, Literal 0x42, Copied 2, Copied 2, Copied 2, Copied 2, Copied 2]
   \<and> decompressLZ77 overlap_stream 0 = Inr [0x41, 0x42, 0x41, 0x42, 0x41, 0x42, 0x41]
   \<and> readByte (0x11 # tl overlap_stream) 0 \<noteq> 0x10
   \<and> (\<exists>e. decompressLZ77 (0x11 # tl overlap_stream) 0 = Inl e)"
proof -
  let ?layout = "[Literal 0x41, Literal 0x42, Copied 2, Copied 2, Copied 2, Copied 2, Copied 2]"
  have size: "lz77_declared_size overlap_stream 0 = 7"
    unfolding overlap_stream_def by code_simp
  have enc: "lz_block_displacement 0x20 0x01 = 2" "lz_block_length 0x20 = 5" by code_simp+
  have bad: "readByte (0x11 # tl overlap_stream) 0 \<noteq> 0x10"
    unfolding overlap_stream_def by code_simp
  have wf: "lz77_well_formed overlap_stream 0"
    by (simp add: lz77_well_formed_def overlap_stream_layout)
  note t = decompressLZ77_contract [of overlap_stream 0]
  from t wf obtain layout out
    where o: "lz77_layout overlap_stream 0 = Some layout"
      "decompressLZ77 overlap_stream 0 = Inr out"
      "length out = unat (lz77_declared_size overlap_stream 0)"
      "\<forall>k < length out. case layout ! k of
                           Literal b \<Rightarrow> out ! k = b
                         | Copied d \<Rightarrow> 1 \<le> d \<and> d \<le> k \<and> out ! k = out ! (k - d)"
    by blast
  from o(1) have layout: "layout = ?layout" by (simp add: overlap_stream_layout)
  from o(3) have l: "length out = 7" unfolding size by simp
  note p = o(4) [unfolded layout, rule_format]
  from p [of 0] p [of 1] l
  have a: "out ! 0 = 0x41" "out ! 1 = 0x42" by simp_all
  from p [of 2] p [of 3] p [of 4] p [of 5] p [of 6] l
  have b: "out ! 2 = out ! 0" "out ! 3 = out ! 1" "out ! 4 = out ! 2" "out ! 5 = out ! 3"
    "out ! 6 = out ! 4"
    by simp_all
  have "out = [0x41, 0x42, 0x41, 0x42, 0x41, 0x42, 0x41]"
    using a b by (subst list_of_length_7 [OF l]) simp
  with o(2) have dec: "decompressLZ77 overlap_stream 0 = Inr [0x41, 0x42, 0x41, 0x42, 0x41, 0x42, 0x41]"
    by simp
  from decompressLZ77_contract [of "0x11 # tl overlap_stream" 0] bad
  have err: "\<exists>e. decompressLZ77 (0x11 # tl overlap_stream) 0 = Inl e" by blast
  from wf size enc overlap_stream_layout dec bad err show ?thesis by blast
qed

end
